theory Spec2Isabelle
  imports Main
begin

unbundle bit_operations_syntax

section \<open>Machine integers\<close>

text \<open>
  The decoder is C.  Unsigned values (\<open>uint8_t\<close>, \<open>uint16_t\<close>, \<open>uint32_t\<close>,
  \<open>size_t\<close> offsets) are modelled as \<open>nat\<close>, signed ones (\<open>int16_t\<close>, \<open>int\<close>,
  \<open>long\<close>) as \<open>int\<close>; every store into a narrower type is written out with the
  wrap-around of that type.  Conversions of an out-of-range value to \<open>int16_t\<close> and
  right shifts of negative values are implementation-defined in C; the model takes the
  two's complement wrap and the arithmetic shift (\<open>div\<close> rounds towards minus infinity),
  as every mainstream compiler does.
\<close>

definition u8 :: "nat \<Rightarrow> nat" where
  "u8 x = x mod 256"

definition u16 :: "nat \<Rightarrow> nat" where
  "u16 x = x mod 65536"

definition u32 :: "nat \<Rightarrow> nat" where
  "u32 x = x mod 4294967296"

definition s16 :: "int \<Rightarrow> int" where
  "s16 x = (x + 32768) mod 65536 - 32768"

section \<open>Decoder context\<close>

text \<open>\<open>fjpeg_info_t\<close>, the out-parameter of the dimension probe.\<close>

record fjpeg_info_t =
  width :: nat
  height :: nat

record huff_table_t =
  min_code :: "nat list"
  max_code :: "nat list"
  val_ptr :: "nat list"

text \<open>
  \<open>fjctx_t\<close>.  The input buffer \<open>data\<close> is the list of its bytes, so the field
  \<open>len\<close> of the C struct is the length of that list.
\<close>

record fjctx_t =
  data :: "nat list"
  pos :: nat
  bits :: nat
  nbits :: nat
  width :: nat
  height :: nat
  ncomp :: nat
  hsamp :: "nat list"
  vsamp :: "nat list"
  comp_qtab :: "nat list"
  comp_dc :: "nat list"
  comp_ac :: "nat list"
  last_dc :: "int list"
  mcu_w :: nat
  mcu_h :: nat
  mcus_x :: nat
  mcus_y :: nat
  qtab :: "int list list"
  huff :: "huff_table_t list"
  huff_val :: "nat list list"
  huff_nval :: "nat list"
  restart_interval :: nat
  restarts_left :: nat
  next_restart :: nat
  block :: "int list"

definition len :: "fjctx_t \<Rightarrow> nat" where
  "len c = length (data c)"

section \<open>Byte and bit reading\<close>

definition read_u8 :: "fjctx_t \<Rightarrow> nat \<times> fjctx_t" where
  "read_u8 c = (if pos c < len c then (data c ! pos c, c\<lparr>pos := pos c + 1\<rparr>) else (0, c))"

definition read_u16 :: "fjctx_t \<Rightarrow> nat \<times> fjctx_t" where
  "read_u16 c =
     (case read_u8 c of (hi, c1) \<Rightarrow>
      case read_u8 c1 of (lo, c2) \<Rightarrow> (u16 (push_bit 8 hi OR lo), c2))"

text \<open>
  \<open>next_byte\<close>: a byte of entropy-coded data, with the 0xFF byte stuffing.  The
  rewind \<open>c->pos -= 2\<close> is only reached after two reads that each returned a nonzero
  byte, so each of them advanced the cursor and the subtraction never goes below 0.
\<close>

definition next_byte :: "fjctx_t \<Rightarrow> nat \<times> fjctx_t" where
  "next_byte c =
     (case read_u8 c of (b, c1) \<Rightarrow>
        if b = 255 then
          (case read_u8 c1 of (marker, c2) \<Rightarrow>
             if marker \<noteq> 0 then (0, c2\<lparr>pos := pos c2 - 2\<rparr>) else (b, c2))
        else (b, c1))"

lemma read_u8_frame:
  "read_u8 c = (b, c1) \<Longrightarrow> c1 = c\<lparr>pos := pos c1\<rparr> \<and> pos c \<le> pos c1 \<and> pos c1 \<le> pos c + 1"
  by (auto simp: read_u8_def split: if_splits)

lemma next_byte_nbits: "next_byte c = (b, c1) \<Longrightarrow> nbits c1 = nbits c"
  by (auto simp: next_byte_def read_u8_def split: if_splits prod.splits)

function fill_bits :: "fjctx_t \<Rightarrow> fjctx_t" where
  "fill_bits c =
     (if nbits c \<le> 24 then
        (case next_byte c of (b, c1) \<Rightarrow>
           fill_bits (c1\<lparr>bits := u32 (bits c1 OR push_bit (24 - nbits c1) b),
                          nbits := nbits c1 + 8\<rparr>))
      else c)"
  by pat_completeness auto
termination
  by (relation "measure (\<lambda>c. 25 - nbits c)") (auto dest: next_byte_nbits [OF sym])

declare fill_bits.simps [simp del]

text \<open>
  \<open>get_bits\<close> and \<open>get_bit\<close>.  After \<open>fill_bits\<close> the count \<open>nbits\<close> is at least 25
  and every caller asks for at most 16 bits, so \<open>nbits - n\<close> never goes below 0.
\<close>

definition get_bits :: "fjctx_t \<Rightarrow> nat \<Rightarrow> nat \<times> fjctx_t" where
  "get_bits c n =
     (if n = 0 then (0, c)
      else (case fill_bits c of c1 \<Rightarrow>
              (u16 (drop_bit (32 - n) (bits c1)),
               c1\<lparr>bits := u32 (push_bit n (bits c1)), nbits := nbits c1 - n\<rparr>)))"

definition get_bit :: "fjctx_t \<Rightarrow> nat \<times> fjctx_t" where
  "get_bit c =
     (case fill_bits c of c1 \<Rightarrow>
        (drop_bit 31 (bits c1) AND 1,
         c1\<lparr>bits := u32 (push_bit 1 (bits c1)), nbits := nbits c1 - 1\<rparr>))"

section \<open>Constant tables\<close>

definition zag :: "nat list" where
  "zag =
   [ 0,  1,  8, 16,  9,  2,  3, 10,
    17, 24, 32, 25, 18, 11,  4,  5,
    12, 19, 26, 33, 40, 48, 41, 34,
    27, 20, 13,  6,  7, 14, 21, 28,
    35, 42, 49, 56, 57, 50, 43, 36,
    29, 22, 15, 23, 30, 37, 44, 51,
    58, 59, 52, 45, 38, 31, 39, 46,
    53, 60, 61, 54, 47, 55, 62, 63]"

definition wquant :: "nat list" where
  "wquant =
   [128, 178, 178, 167, 246, 167, 151, 232,
    232, 151, 128, 209, 219, 209, 128, 101,
    178, 197, 197, 178, 101,  69, 139, 167,
    177, 167, 139,  69,  35,  96, 131, 151,
    151, 131,  96,  35,  49,  91, 118, 128,
    118,  91,  49,  46,  81, 101, 101,  81,
     46,  42,  69,  79,  69,  42,  35,  54,
     54,  35,  28,  37,  28,  19,  19,  10]"

section \<open>Huffman tables\<close>

text \<open>
  \<open>huff_build\<close>: one turn of the loop over the 16 code lengths.  The loop state is
  the running \<open>uint16_t code\<close>, the running \<open>uint8_t j\<close> and the table being filled.
\<close>

definition huff_build_step ::
  "nat list \<Rightarrow> nat \<Rightarrow> nat \<times> nat \<times> huff_table_t \<Rightarrow> nat \<times> nat \<times> huff_table_t" where
  "huff_build_step counts i s =
     (case s of (code, j, ht) \<Rightarrow>
        if counts ! i = 0 then
          (u16 (push_bit 1 code), j,
           ht\<lparr>min_code := (min_code ht)[i := 0],
              max_code := (max_code ht)[i := 65535],
              val_ptr := (val_ptr ht)[i := 0]\<rparr>)
        else
          (u16 (push_bit 1 (u16 (code + counts ! i))), u8 (j + counts ! i),
           ht\<lparr>min_code := (min_code ht)[i := code],
              max_code := (max_code ht)[i := u16 (code + counts ! i - 1)],
              val_ptr := (val_ptr ht)[i := j]\<rparr>))"

definition huff_build :: "nat list \<Rightarrow> huff_table_t \<Rightarrow> huff_table_t" where
  "huff_build counts ht = snd (snd (fold (huff_build_step counts) [0..<16] (0, 0, ht)))"

text \<open>
  \<open>huff_decode\<close>.  The loop carries the length index \<open>i\<close> and the code read so far.
  \<open>code - min_code[i]\<close> is computed in \<open>int\<close> and cut to \<open>uint8_t\<close>.  The table index
  comes from the SOS segment unchecked: an index of 4 or more is outside \<open>huff[4]\<close>,
  which C leaves undefined, and the model answers \<open>None\<close>.
\<close>

function huff_decode_loop :: "nat \<Rightarrow> nat \<Rightarrow> nat \<Rightarrow> fjctx_t \<Rightarrow> nat \<times> fjctx_t" where
  "huff_decode_loop table i code c =
     (if i < 16 then
        (if code \<le> max_code (huff c ! table) ! i \<and> max_code (huff c ! table) ! i \<noteq> 65535 then
           (huff_val c ! table !
              u8 (val_ptr (huff c ! table) ! i +
                  nat ((int code - int (min_code (huff c ! table) ! i)) mod 256)), c)
         else
           (case get_bit c of (b, c1) \<Rightarrow>
              huff_decode_loop table (i + 1) (u16 (push_bit 1 code OR b)) c1))
      else (0, c))"
  by pat_completeness auto
termination
  by (relation "measure (\<lambda>(table, i, code, c). 16 - i)") auto

declare huff_decode_loop.simps [simp del]

definition huff_decode :: "fjctx_t \<Rightarrow> nat \<Rightarrow> (nat \<times> fjctx_t) option" where
  "huff_decode c table =
     (if table < 4 then
        Some (case get_bit c of (b, c1) \<Rightarrow> huff_decode_loop table 0 b c1)
      else None)"

text \<open>
  \<open>huff_extend\<close>.  Every caller passes \<open>bits \<le> 15\<close> (the low nibble of a symbol).
\<close>

definition huff_extend :: "nat \<Rightarrow> nat \<Rightarrow> int" where
  "huff_extend val nb =
     (if nb = 0 then 0
      else if val < 2 ^ (nb - 1) then s16 (s16 (int val) - s16 (2 ^ nb - 1))
      else s16 (int val))"

section \<open>Marker parsing\<close>

text \<open>
  A \<open>uint16_t\<close> receiving the result of an \<open>int\<close> computation that may be negative
  (\<open>left = read_u16(c) - 2\<close>, \<open>left -= 65\<close>).
\<close>

definition u16i :: "int \<Rightarrow> nat" where
  "u16i x = nat (x mod 65536)"

subsection \<open>DQT\<close>

definition dqt_load_step :: "nat \<Rightarrow> nat \<Rightarrow> nat \<Rightarrow> fjctx_t \<Rightarrow> fjctx_t" where
  "dqt_load_step prec tid i c =
     (case read_u8 c of (v, c1) \<Rightarrow>
        if prec \<noteq> 0 then
          (case read_u8 c1 of (lo, c2) \<Rightarrow>
             c2\<lparr>qtab := (qtab c2)[tid := (qtab c2 ! tid)[i := s16 (int (push_bit 8 v OR lo))]]\<rparr>)
        else c1\<lparr>qtab := (qtab c1)[tid := (qtab c1 ! tid)[i := int v]]\<rparr>)"

definition dqt_scale_step :: "nat \<Rightarrow> nat \<Rightarrow> fjctx_t \<Rightarrow> fjctx_t" where
  "dqt_scale_step tid i c =
     c\<lparr>qtab := (qtab c)[tid := (qtab c ! tid)
            [i := s16 ((qtab c ! tid ! i * int (wquant ! i) + 4) div 8)]]\<rparr>"

text \<open>The two loops over the 64 entries of one table: load, then pre-multiply.\<close>

definition dqt_table :: "nat \<Rightarrow> nat \<Rightarrow> fjctx_t \<Rightarrow> fjctx_t" where
  "dqt_table prec tid c =
     fold (dqt_scale_step tid) [0..<64] (fold (dqt_load_step prec tid) [0..<64] c)"

lemma dqt_load_step_frame:
  "len (dqt_load_step prec tid i c) = len c \<and> pos c \<le> pos (dqt_load_step prec tid i c) \<and>
   (len c \<le> pos c \<longrightarrow> pos (dqt_load_step prec tid i c) = pos c)"
  by (simp add: dqt_load_step_def read_u8_def len_def split: prod.splits)

lemma dqt_load_fold_frame:
  "len (fold (dqt_load_step prec tid) xs c) = len c \<and>
   pos c \<le> pos (fold (dqt_load_step prec tid) xs c) \<and>
   (len c \<le> pos c \<longrightarrow> pos (fold (dqt_load_step prec tid) xs c) = pos c)"
proof (induction xs arbitrary: c)
  case Nil
  show ?case by simp
next
  case (Cons x xs)
  show ?case
    using Cons.IH [of "dqt_load_step prec tid x c"] dqt_load_step_frame [of prec tid x c]
    by auto
qed

lemma dqt_scale_fold_frame:
  "len (fold (dqt_scale_step tid) xs c) = len c \<and> pos (fold (dqt_scale_step tid) xs c) = pos c"
  by (induction xs arbitrary: c) (simp_all add: dqt_scale_step_def len_def)

lemma dqt_table_frame:
  "len (dqt_table prec tid c) = len c \<and> pos c \<le> pos (dqt_table prec tid c) \<and>
   (len c \<le> pos c \<longrightarrow> pos (dqt_table prec tid c) = pos c)"
  using dqt_load_fold_frame [of prec tid "[0..<64]" c]
    dqt_scale_fold_frame [of tid "[0..<64]" "fold (dqt_load_step prec tid) [0..<64] c"]
  by (simp add: dqt_table_def)

text \<open>
  The segment loops count \<open>left\<close> down in \<open>uint16_t\<close> and stop only at exactly 0.  Past
  the end of the input every read gives 0, so each turn subtracts the same odd number
  (65 for DQT, 17 for DHT); an odd number is a unit modulo 65536, hence the counter
  reaches 0.  The two lemmas below give the measure.
\<close>

lemma unit_mod_nz:
  fixes left :: nat
  assumes "0 < left" "left < 65536" and inv: "k * r = 1 + 65536 * q"
  shows "(left * r) mod 65536 \<noteq> 0"
proof
  assume z: "(left * r) mod 65536 = 0"
  then have "65536 dvd left * r" by (simp add: dvd_eq_mod_eq_0)
  then have "65536 dvd k * (left * r)" by (rule dvd_mult)
  moreover have "k * (left * r) = left * (k * r)" by simp
  ultimately have "65536 dvd left * (1 + 65536 * q)" by (simp add: inv)
  then have d: "65536 dvd left + (q * left) * 65536" by (simp add: algebra_simps)
  have "65536 dvd left"
    using d unfolding dvd_add_times_triv_right_iff .
  with assms show False by (auto dest: dvd_imp_le)
qed

lemma rank_dec:
  fixes left :: nat
  assumes "0 < left" "left < 65536" and inv: "k * r = 1 + 65536 * q"
  shows "(u16i (int left - int k) * r) mod 65536 < (left * r) mod 65536"
proof -
  let ?a = "(int left * int r) mod 65536"
  have "int ((u16i (int left - int k) * r) mod 65536) =
        ((int left - int k) mod 65536 * int r) mod 65536"
    by (simp add: u16i_def zmod_int)
  also have "\<dots> = ((int left - int k) * int r) mod 65536"
    by (simp add: mod_mult_left_eq)
  also have "(int left - int k) * int r = int left * int r - int (k * r)"
    by (simp add: algebra_simps)
  also have "\<dots> = int left * int r - 1 - 65536 * int q"
    by (simp add: inv)
  also have "(int left * int r - 1 - 65536 * int q) mod 65536 = (int left * int r - 1) mod 65536"
    using mod_mult_self2 [of "int left * int r - 1" 65536 "- int q"] by simp
  also have "\<dots> = (?a - 1) mod 65536"
    by (simp add: mod_diff_left_eq)
  finally have e: "int ((u16i (int left - int k) * r) mod 65536) = (?a - 1) mod 65536" .
  have "int ((left * r) mod 65536) \<noteq> 0"
    using unit_mod_nz [OF assms] by simp
  then have nz: "?a \<noteq> 0" by (simp add: zmod_int)
  have "0 \<le> ?a" "?a < 65536" by simp_all
  with nz have "(?a - 1) mod 65536 = ?a - 1"
    by (simp add: mod_pos_pos_trivial)
  with e have "int ((u16i (int left - int k) * r) mod 65536) < int ((left * r) mod 65536)"
    by (simp add: zmod_int)
  then show ?thesis by linarith
qed

definition rank16 :: "nat \<Rightarrow> nat \<Rightarrow> nat" where
  "rank16 r left = (if 65536 \<le> left then 65536 else (left * r) mod 65536)"

lemma rank16_dec:
  assumes "0 < left" and inv: "k * r = 1 + 65536 * q"
  shows "rank16 r (u16i (int left - int k)) < rank16 r left"
proof (cases "left < 65536")
  case True
  have "u16i (int left - int k) < 65536" by (simp add: u16i_def nat_less_iff)
  with True rank_dec [OF assms(1) True inv] show ?thesis by (simp add: rank16_def)
next
  case False
  have "u16i (int left - int k) < 65536" by (simp add: u16i_def nat_less_iff)
  with False show ?thesis by (simp add: rank16_def)
qed

function dqt_loop :: "nat \<Rightarrow> fjctx_t \<Rightarrow> int \<times> fjctx_t" where
  "dqt_loop left c =
     (if left > 0 then
        (case read_u8 c of (info, c1) \<Rightarrow>
           if info AND 15 > 1 then (- 1, c1)
           else dqt_loop (u16i (int left - (65 + (if drop_bit 4 info \<noteq> 0 then 64 else 0))))
                  (dqt_table (drop_bit 4 info) (info AND 15) c1))
      else (0, c))"
  by pat_completeness auto
termination
proof (relation "measures [\<lambda>(left, c). len c - pos c, \<lambda>(left, c). rank16 4033 left]",
    goal_cases)
  case 1
  show ?case by simp
next
  case (2 left c x1 x2)
  let ?c' = "dqt_table (drop_bit 4 x1) (x1 AND 15) x2"
  show ?case
  proof (cases "pos c < len c")
    case True
    with 2 have "pos x2 = pos c + 1" "len x2 = len c"
      by (auto simp: read_u8_def len_def)
    with True dqt_table_frame [of "drop_bit 4 x1" "x1 AND 15" x2]
    have "len ?c' - pos ?c' < len c - pos c" by linarith
    then show ?thesis by simp
  next
    case False
    with 2 have e: "x2 = c" "x1 = 0" by (auto simp: read_u8_def)
    with False dqt_table_frame [of "drop_bit 4 x1" "x1 AND 15" x2]
    have "len ?c' - pos ?c' = len c - pos c" by simp
    moreover have "rank16 4033 (u16i (int left - 65)) < rank16 4033 left"
      using rank16_dec [of left 65 4033 4] 2 by simp
    ultimately show ?thesis using e by simp
  qed
qed

declare dqt_loop.simps [simp del]

definition parse_dqt :: "fjctx_t \<Rightarrow> int \<times> fjctx_t" where
  "parse_dqt c = (case read_u16 c of (l, c1) \<Rightarrow> dqt_loop (u16i (int l - 2)) c1)"

subsection \<open>DHT\<close>

text \<open>
  The 16 count bytes and their \<open>uint16_t\<close> sum (\<open>total\<close> in the source).  The C array \<open>counts[16]\<close> starts
  uninitialised and the loop writes each of its entries.
\<close>

definition dht_count_step ::
  "nat \<Rightarrow> nat list \<times> nat \<times> fjctx_t \<Rightarrow> nat list \<times> nat \<times> fjctx_t" where
  "dht_count_step i s =
     (case s of (counts, tot, c) \<Rightarrow>
        case read_u8 c of (v, c1) \<Rightarrow> (counts[i := v], u16 (tot + v), c1))"

definition dht_counts :: "fjctx_t \<Rightarrow> nat list \<times> nat \<times> fjctx_t" where
  "dht_counts c = fold dht_count_step [0..<16] (replicate 16 0, 0, c)"

definition dht_symbol_step :: "nat \<Rightarrow> nat \<Rightarrow> fjctx_t \<Rightarrow> fjctx_t" where
  "dht_symbol_step table i c =
     (case read_u8 c of (v, c1) \<Rightarrow>
        c1\<lparr>huff_val := (huff_val c1)[table := (huff_val c1 ! table)[i := v]]\<rparr>)"

text \<open>One table of the segment: counts, symbols (at most 256 stored), \<open>huff_build\<close>.\<close>

definition dht_table :: "nat \<Rightarrow> fjctx_t \<Rightarrow> nat \<times> fjctx_t" where
  "dht_table info c =
     (case dht_counts c of (counts, tot, c1) \<Rightarrow>
        case fold (dht_symbol_step ((drop_bit 4 info AND 1) * 2 + (info AND 1)))
               [0..<min tot 256] c1 of c2 \<Rightarrow>
          (tot,
           c2\<lparr>huff_nval := (huff_nval c2)[(drop_bit 4 info AND 1) * 2 + (info AND 1) := u8 tot],
              huff := (huff c2)[(drop_bit 4 info AND 1) * 2 + (info AND 1) :=
                 huff_build counts (huff c2 ! ((drop_bit 4 info AND 1) * 2 + (info AND 1)))]\<rparr>))"

lemma dht_count_fold_frame:
  "fold dht_count_step xs (cs, t, c) = (cs', t', c') \<Longrightarrow>
   len c' = len c \<and> pos c \<le> pos c' \<and>
   (len c \<le> pos c \<longrightarrow> pos c' = pos c \<and> (t < 65536 \<longrightarrow> t' = t))"
proof (induction xs arbitrary: cs t c)
  case Nil
  then show ?case by simp
next
  case (Cons x xs)
  obtain v c1 where r: "read_u8 c = (v, c1)" by (cases "read_u8 c")
  have "dht_count_step x (cs, t, c) = (cs[x := v], u16 (t + v), c1)"
    by (simp add: dht_count_step_def r)
  with Cons.prems have "fold dht_count_step xs (cs[x := v], u16 (t + v), c1) = (cs', t', c')"
    by simp
  from Cons.IH [OF this] r show ?case
    by (auto simp: read_u8_def len_def u16_def split: if_splits)
qed

lemma dht_symbol_fold_frame:
  "len (fold (dht_symbol_step table) xs c) = len c \<and>
   pos c \<le> pos (fold (dht_symbol_step table) xs c)"
proof (induction xs arbitrary: c)
  case Nil
  show ?case by simp
next
  case (Cons x xs)
  have "len (dht_symbol_step table x c) = len c \<and> pos c \<le> pos (dht_symbol_step table x c)"
    by (simp add: dht_symbol_step_def read_u8_def len_def split: prod.splits)
  with Cons.IH [of "dht_symbol_step table x c"] show ?case by auto
qed

lemma dht_table_frame:
  assumes "dht_table info c = (tot, c')"
  shows "len c' = len c \<and> pos c \<le> pos c' \<and> (len c \<le> pos c \<longrightarrow> pos c' = pos c \<and> tot = 0)"
proof -
  obtain counts t c1 where d: "dht_counts c = (counts, t, c1)" by (cases "dht_counts c")
  let ?c2 = "fold (dht_symbol_step ((drop_bit 4 info AND 1) * 2 + (info AND 1))) [0..<min t 256] c1"
  from assms d have t: "tot = t" and c': "len c' = len ?c2" "pos c' = pos ?c2"
    by (auto simp: dht_table_def len_def)
  from d have f1: "len c1 = len c \<and> pos c \<le> pos c1 \<and> (len c \<le> pos c \<longrightarrow> pos c1 = pos c \<and> t = 0)"
    unfolding dht_counts_def by (auto dest: dht_count_fold_frame)
  have f2: "len ?c2 = len c1 \<and> pos c1 \<le> pos ?c2" by (rule dht_symbol_fold_frame)
  have "len c \<le> pos c \<Longrightarrow> ?c2 = c1" using f1 by simp
  with f1 f2 t c' show ?thesis by auto
qed

function dht_loop :: "nat \<Rightarrow> fjctx_t \<Rightarrow> int \<times> fjctx_t" where
  "dht_loop left c =
     (if left > 0 then
        (case read_u8 c of (info, c1) \<Rightarrow>
           case dht_table info c1 of (tot, c2) \<Rightarrow>
             dht_loop (u16i (int left - (17 + int tot))) c2)
      else (0, c))"
  by pat_completeness auto
termination
proof (relation "measures [\<lambda>(left, c). len c - pos c, \<lambda>(left, c). rank16 61681 left]",
    goal_cases)
  case 1
  show ?case by simp
next
  case (2 left c x1 x2 x3 x4)
  then have t: "dht_table x1 x2 = (x3, x4)" by simp
  show ?case
  proof (cases "pos c < len c")
    case True
    with 2 have "pos x2 = pos c + 1" "len x2 = len c"
      by (auto simp: read_u8_def len_def)
    with True dht_table_frame [OF t]
    have "len x4 - pos x4 < len c - pos c" by linarith
    then show ?thesis by simp
  next
    case False
    with 2 have e: "x2 = c" by (auto simp: read_u8_def)
    with False dht_table_frame [OF t]
    have "len x4 - pos x4 = len c - pos c" and z: "x3 = 0" by simp_all
    moreover have "rank16 61681 (u16i (int left - 17)) < rank16 61681 left"
      using rank16_dec [of left 17 61681 16] 2 by simp
    ultimately show ?thesis by simp
  qed
qed

declare dht_loop.simps [simp del]

definition parse_dht :: "fjctx_t \<Rightarrow> int \<times> fjctx_t" where
  "parse_dht c = (case read_u16 c of (l, c1) \<Rightarrow> dht_loop (u16i (int l - 2)) c1)"

subsection \<open>SOF0\<close>

definition sof_comp_step :: "nat \<Rightarrow> fjctx_t \<Rightarrow> fjctx_t" where
  "sof_comp_step i c =
     (case read_u8 c of (cid, c1) \<Rightarrow>
      case read_u8 c1 of (samp, c2) \<Rightarrow>
      case read_u8 (c2\<lparr>hsamp := (hsamp c2)[i := drop_bit 4 samp],
                        vsamp := (vsamp c2)[i := samp AND 15]\<rparr>) of (q, c3) \<Rightarrow>
        c3\<lparr>comp_qtab := (comp_qtab c3)[i := q]\<rparr>)"

definition sof_mcu_size :: "fjctx_t \<Rightarrow> fjctx_t" where
  "sof_mcu_size c =
     (if ncomp c = 1 then c\<lparr>mcu_w := 8, mcu_h := 8\<rparr>
      else c\<lparr>mcu_w := u8 (hsamp c ! 0 * 8), mcu_h := u8 (vsamp c ! 0 * 8)\<rparr>)"

text \<open>
  \<open>parse_sof\<close>.  A sampling factor 0 of component 0 makes \<open>mcu_w\<close> or \<open>mcu_h\<close> zero and
  the computation of \<open>mcus_x\<close>, \<open>mcus_y\<close> a division by zero, which C leaves
  undefined: the model answers \<open>None\<close>.
\<close>

definition parse_sof :: "fjctx_t \<Rightarrow> (int \<times> fjctx_t) option" where
  "parse_sof c =
     (case read_u16 c of (l, c1) \<Rightarrow>
      case read_u8 c1 of (p, c2) \<Rightarrow>
        if p \<noteq> 8 then Some (- 1, c2)
        else
          (case read_u16 c2 of (h, c3) \<Rightarrow>
           case read_u16 (c3\<lparr>height := h\<rparr>) of (w, c4) \<Rightarrow>
           case read_u8 (c4\<lparr>width := w\<rparr>) of (n, c5) \<Rightarrow>
             if n \<noteq> 1 \<and> n \<noteq> 3 then Some (- 1, c5\<lparr>ncomp := n\<rparr>)
             else
               (case sof_mcu_size (fold sof_comp_step [0..<n] (c5\<lparr>ncomp := n\<rparr>)) of c6 \<Rightarrow>
                  if mcu_w c6 = 0 \<or> mcu_h c6 = 0 then None
                  else Some (0, c6\<lparr>mcus_x := u16 ((width c6 + mcu_w c6 - 1) div mcu_w c6),
                                     mcus_y := u16 ((height c6 + mcu_h c6 - 1) div mcu_h c6)\<rparr>))))"

subsection \<open>SOS\<close>

text \<open>
  The component loop of \<open>parse_sos\<close> runs to the count \<open>ns\<close> read from the segment and
  writes \<open>comp_dc[i]\<close>, \<open>comp_ac[i]\<close>, arrays of 3 entries: a write at \<open>i \<ge> 3\<close> is
  outside them, undefined in C, \<open>None\<close> in the model.
\<close>

function sos_comps :: "nat \<Rightarrow> nat \<Rightarrow> nat \<Rightarrow> fjctx_t \<Rightarrow> (nat \<times> fjctx_t) option" where
  "sos_comps ns i left c =
     (if i < ns then
        (case read_u8 c of (cid, c1) \<Rightarrow>
         case read_u8 c1 of (tab, c2) \<Rightarrow>
           if i < 3 then
             sos_comps ns (i + 1) (u16i (int left - 2))
               (c2\<lparr>comp_dc := (comp_dc c2)[i := drop_bit 4 tab],
                   comp_ac := (comp_ac c2)[i := tab AND 15]\<rparr>)
           else None)
      else Some (left, c))"
  by pat_completeness auto
termination
  by (relation "measure (\<lambda>(ns, i, left, c). ns - i)") auto

declare sos_comps.simps [simp del]

function sos_skip :: "nat \<Rightarrow> fjctx_t \<Rightarrow> fjctx_t" where
  "sos_skip left c = (if left > 0 then sos_skip (left - 1) (snd (read_u8 c)) else c)"
  by pat_completeness auto
termination
  by (relation "measure (\<lambda>(left, c). left)") auto

declare sos_skip.simps [simp del]

definition parse_sos :: "fjctx_t \<Rightarrow> (int \<times> fjctx_t) option" where
  "parse_sos c =
     (case read_u16 c of (l, c1) \<Rightarrow>
      case read_u8 c1 of (ns, c2) \<Rightarrow>
      case sos_comps ns 0 (u16i (int (u16i (int l - 2)) - 1)) c2 of
        None \<Rightarrow> None
      | Some (left, c3) \<Rightarrow> Some (0, sos_skip left c3))"

subsection \<open>DRI, other segments, the marker loop\<close>

definition parse_dri :: "fjctx_t \<Rightarrow> int \<times> fjctx_t" where
  "parse_dri c =
     (case read_u16 c of (l, c1) \<Rightarrow>
      case read_u16 c1 of (ri, c2) \<Rightarrow> (0, c2\<lparr>restart_interval := ri\<rparr>))"

text \<open>
  \<open>skip_marker\<close> adds to the cursor without a bound check; the cursor is a \<open>size_t\<close>
  and a buffer is far shorter than its range, so the sum is the sum of naturals.
\<close>

definition skip_marker :: "fjctx_t \<Rightarrow> fjctx_t" where
  "skip_marker c =
     (case read_u16 c of (l, c1) \<Rightarrow> if l \<ge> 2 then c1\<lparr>pos := pos c1 + (l - 2)\<rparr> else c1)"

text \<open>\<open>do { b = read_u8(c); } while (b == 0xFF);\<close>\<close>

function skip_ff :: "fjctx_t \<Rightarrow> nat \<times> fjctx_t" where
  "skip_ff c = (case read_u8 c of (b, c1) \<Rightarrow> if b = 255 then skip_ff c1 else (b, c1))"
  by pat_completeness auto
termination
  by (relation "measure (\<lambda>c. len c - pos c)") (auto simp: read_u8_def len_def split: if_splits)

declare skip_ff.simps [simp del]

text \<open>
  One turn of the \<open>while\<close> loop of \<open>parse_markers\<close>.  The result is \<open>None\<close> where C
  leaves the behaviour undefined, \<open>Some (Some r, c)\<close> where the function returns \<open>r\<close>,
  and \<open>Some (None, c)\<close> where the loop goes on.
\<close>

definition status_step :: "int \<times> fjctx_t \<Rightarrow> (int option \<times> fjctx_t) option" where
  "status_step rc = (case rc of (r, c) \<Rightarrow> if r \<noteq> 0 then Some (Some (- 1), c) else Some (None, c))"

definition marker_step :: "fjctx_t \<Rightarrow> (int option \<times> fjctx_t) option" where
  "marker_step c =
     (case read_u8 c of (b, c1) \<Rightarrow>
        if b \<noteq> 255 then Some (None, c1)
        else
          (case skip_ff c1 of (m, c2) \<Rightarrow>
             if m = 0 then Some (None, c2)
             else if m = 192 then
               (case parse_sof c2 of None \<Rightarrow> None | Some rc \<Rightarrow> status_step rc)
             else if m = 196 then status_step (parse_dht c2)
             else if m = 219 then status_step (parse_dqt c2)
             else if m = 221 then status_step (parse_dri c2)
             else if m = 218 then
               (case parse_sos c2 of
                  None \<Rightarrow> None
                | Some (r, c3) \<Rightarrow> if r \<noteq> 0 then Some (Some (- 1), c3) else Some (Some 0, c3))
             else if m = 217 then Some (Some (- 1), c2)
             else if m = 194 then Some (Some (- 1), c2)
             else Some (None, skip_marker c2)))"

text \<open>
  What marker parsing leaves alone: the input, the bit reader, the DC predictors, the
  restart counters and the work block; the cursor only moves forward.
\<close>

definition pframe :: "fjctx_t \<Rightarrow> fjctx_t \<Rightarrow> bool" where
  "pframe c c' \<longleftrightarrow>
     data c' = data c \<and> pos c \<le> pos c' \<and> bits c' = bits c \<and> nbits c' = nbits c \<and>
     last_dc c' = last_dc c \<and> restarts_left c' = restarts_left c \<and>
     next_restart c' = next_restart c \<and> block c' = block c"

lemma pframe_refl: "pframe c c"
  by (simp add: pframe_def)

lemma pframe_trans: "pframe a b \<Longrightarrow> pframe b c \<Longrightarrow> pframe a c"
  by (auto simp: pframe_def)

lemma pframe_fold:
  assumes "\<And>x c. pframe c (f x c)"
  shows "pframe c (fold f xs c)"
proof (induction xs arbitrary: c)
  case Nil
  show ?case by (simp add: pframe_refl)
next
  case (Cons x xs)
  show ?case using pframe_trans [OF assms [of c x] Cons.IH [of "f x c"]] by simp
qed

lemma read_u8_pframe: "read_u8 c = (b, c1) \<Longrightarrow> pframe c c1"
  by (auto simp: read_u8_def pframe_def split: if_splits)

lemma read_u16_pframe: "read_u16 c = (b, c1) \<Longrightarrow> pframe c c1"
  by (auto simp: read_u16_def read_u8_def pframe_def split: if_splits prod.splits)

lemma dqt_table_pframe: "pframe c (dqt_table prec tid c)"
proof -
  have "pframe c (dqt_load_step p t i c)" for p t i c
    by (auto simp: dqt_load_step_def read_u8_def pframe_def split: prod.splits)
  then have a: "pframe c (fold (dqt_load_step prec tid) [0..<64] c)"
    by (rule pframe_fold)
  have "pframe c (dqt_scale_step t i c)" for t i c
    by (simp add: dqt_scale_step_def pframe_def)
  then have "pframe c (fold (dqt_scale_step tid) [0..<64] c)" for c
    by (rule pframe_fold)
  from pframe_trans [OF a this] show ?thesis by (simp add: dqt_table_def)
qed

lemma dqt_loop_pframe: "dqt_loop left c = (r, c') \<Longrightarrow> pframe c c'"
proof (induction left c rule: dqt_loop.induct)
  case (1 left c)
  obtain info c1 where r: "read_u8 c = (info, c1)" by (cases "read_u8 c")
  note f = read_u8_pframe [OF r]
  show ?case
  proof (cases "left > 0 \<and> \<not> info AND 15 > 1")
    case True
    with "1.prems" r have
      "dqt_loop (u16i (int left - (65 + (if drop_bit 4 info \<noteq> 0 then 64 else 0))))
         (dqt_table (drop_bit 4 info) (info AND 15) c1) = (r, c')"
      by (simp add: dqt_loop.simps [of left c])
    from "1.IH" [OF _ r [symmetric] _ this] True
    have "pframe (dqt_table (drop_bit 4 info) (info AND 15) c1) c'" by simp
    with f dqt_table_pframe show ?thesis by (blast intro: pframe_trans)
  next
    case False
    with "1.prems" r f show ?thesis
      by (auto simp: dqt_loop.simps [of left c] pframe_refl split: if_splits)
  qed
qed

lemma parse_dqt_pframe: "parse_dqt c = (r, c') \<Longrightarrow> pframe c c'"
  by (auto simp: parse_dqt_def split: prod.splits
      intro: pframe_trans [OF read_u16_pframe dqt_loop_pframe])

lemma dht_count_fold_pframe:
  "fold dht_count_step xs (cs, t, c) = (cs', t', c') \<Longrightarrow> pframe c c'"
proof (induction xs arbitrary: cs t c)
  case Nil
  then show ?case by (simp add: pframe_refl)
next
  case (Cons x xs)
  obtain v c1 where r: "read_u8 c = (v, c1)" by (cases "read_u8 c")
  have "dht_count_step x (cs, t, c) = (cs[x := v], u16 (t + v), c1)"
    by (simp add: dht_count_step_def r)
  with Cons.prems have "fold dht_count_step xs (cs[x := v], u16 (t + v), c1) = (cs', t', c')"
    by simp
  from Cons.IH [OF this] read_u8_pframe [OF r] show ?case by (rule pframe_trans [rotated])
qed

lemma dht_table_pframe:
  assumes "dht_table info c = (tot, c')"
  shows "pframe c c'"
proof -
  obtain counts t c1 where d: "dht_counts c = (counts, t, c1)" by (cases "dht_counts c")
  let ?tb = "(drop_bit 4 info AND 1) * 2 + (info AND 1)"
  let ?c2 = "fold (dht_symbol_step ?tb) [0..<min t 256] c1"
  from d have f1: "pframe c c1"
    unfolding dht_counts_def by (rule dht_count_fold_pframe)
  have "pframe c (dht_symbol_step tb i c)" for tb i c
    by (auto simp: dht_symbol_step_def read_u8_def pframe_def split: prod.splits)
  then have f2: "pframe c1 ?c2" by (rule pframe_fold)
  from assms d have "pframe ?c2 c'"
    by (auto simp: dht_table_def pframe_def)
  with f1 f2 show ?thesis by (blast intro: pframe_trans)
qed

lemma dht_loop_pframe: "dht_loop left c = (r, c') \<Longrightarrow> pframe c c'"
proof (induction left c rule: dht_loop.induct)
  case (1 left c)
  obtain info c1 where r: "read_u8 c = (info, c1)" by (cases "read_u8 c")
  obtain tot c2 where t: "dht_table info c1 = (tot, c2)" by (cases "dht_table info c1")
  show ?case
  proof (cases "left > 0")
    case True
    with "1.prems" r t have "dht_loop (u16i (int left - (17 + int tot))) c2 = (r, c')"
      by (simp add: dht_loop.simps [of left c])
    from "1.IH" [OF True r [symmetric] t [symmetric] this]
    have "pframe c2 c'" .
    with read_u8_pframe [OF r] dht_table_pframe [OF t] show ?thesis
      by (blast intro: pframe_trans)
  next
    case False
    with "1.prems" show ?thesis
      by (auto simp: dht_loop.simps [of left c] pframe_refl)
  qed
qed

lemma parse_dht_pframe: "parse_dht c = (r, c') \<Longrightarrow> pframe c c'"
  by (auto simp: parse_dht_def split: prod.splits
      intro: pframe_trans [OF read_u16_pframe dht_loop_pframe])

lemma sof_comp_step_pframe: "pframe c (sof_comp_step i c)"
  by (auto simp: sof_comp_step_def read_u8_def pframe_def split: prod.splits)

lemma parse_sof_pframe: "parse_sof c = Some (r, c') \<Longrightarrow> pframe c c'"
proof -
  assume a: "parse_sof c = Some (r, c')"
  obtain l c1 where r1: "read_u16 c = (l, c1)" by (cases "read_u16 c")
  obtain p c2 where r2: "read_u8 c1 = (p, c2)" by (cases "read_u8 c1")
  obtain h c3 where r3: "read_u16 c2 = (h, c3)" by (cases "read_u16 c2")
  obtain w c4 where r4: "read_u16 (c3\<lparr>height := h\<rparr>) = (w, c4)"
    by (cases "read_u16 (c3\<lparr>height := h\<rparr>)")
  obtain n c5 where r5: "read_u8 (c4\<lparr>width := w\<rparr>) = (n, c5)"
    by (cases "read_u8 (c4\<lparr>width := w\<rparr>)")
  let ?c6 = "fold sof_comp_step [0..<n] (c5\<lparr>ncomp := n\<rparr>)"
  have f2: "pframe c c2"
    using read_u16_pframe [OF r1] read_u8_pframe [OF r2] by (rule pframe_trans)
  have "pframe c2 (c3\<lparr>height := h\<rparr>)" using read_u16_pframe [OF r3] by (simp add: pframe_def)
  from pframe_trans [OF this read_u16_pframe [OF r4]]
  have "pframe c2 (c4\<lparr>width := w\<rparr>)" by (simp add: pframe_def)
  from pframe_trans [OF this read_u8_pframe [OF r5]]
  have f5: "pframe c2 (c5\<lparr>ncomp := n\<rparr>)" "pframe c2 c5" by (simp_all add: pframe_def)
  have "pframe (c5\<lparr>ncomp := n\<rparr>) ?c6"
    by (rule pframe_fold) (rule sof_comp_step_pframe)
  with f5 have "pframe c2 ?c6" by (blast intro: pframe_trans)
  then have f6: "pframe c2 (sof_mcu_size ?c6)" by (simp add: sof_mcu_size_def pframe_def)
  from a r1 r2 r3 r4 r5 have "pframe c2 c'"
    using f5 f6 pframe_refl [of c2]
    by (auto simp: parse_sof_def pframe_def split: if_splits)
  with f2 show ?thesis by (rule pframe_trans)
qed

lemma sos_comps_pframe: "sos_comps ns i left c = Some (l', c') \<Longrightarrow> pframe c c'"
proof (induction ns i left c rule: sos_comps.induct)
  case (1 ns i left c)
  obtain cid c1 where r1: "read_u8 c = (cid, c1)" by (cases "read_u8 c")
  obtain tab c2 where r2: "read_u8 c1 = (tab, c2)" by (cases "read_u8 c1")
  let ?c3 = "c2\<lparr>comp_dc := (comp_dc c2)[i := drop_bit 4 tab],
                 comp_ac := (comp_ac c2)[i := tab AND 15]\<rparr>"
  show ?case
  proof (cases "i < ns")
    case True
    with "1.prems" r1 r2 have i3: "i < 3"
      and e: "sos_comps ns (i + 1) (u16i (int left - 2)) ?c3 = Some (l', c')"
      by (auto simp: sos_comps.simps [of ns i left c] split: if_splits)
    from "1.IH" [OF True r1 [symmetric] r2 [symmetric] i3 e] have "pframe ?c3 c'" .
    moreover have "pframe c ?c3"
      using pframe_trans [OF read_u8_pframe [OF r1] read_u8_pframe [OF r2]]
      by (simp add: pframe_def)
    ultimately show ?thesis by (rule pframe_trans [rotated])
  next
    case False
    with "1.prems" show ?thesis
      by (auto simp: sos_comps.simps [of ns i left c] pframe_refl)
  qed
qed

lemma sos_skip_pframe: "pframe c (sos_skip left c)"
proof (induction left c rule: sos_skip.induct)
  case (1 left c)
  show ?case
  proof (cases "left > 0")
    case True
    have "pframe c (snd (read_u8 c))"
      by (rule read_u8_pframe [of c "fst (read_u8 c)"]) simp
    from pframe_trans [OF this "1.IH" [OF True]] True show ?thesis
      by (simp add: sos_skip.simps [of left c])
  next
    case False
    then show ?thesis by (simp add: sos_skip.simps [of 0 c] pframe_refl)
  qed
qed

lemma parse_sos_pframe: "parse_sos c = Some (r, c') \<Longrightarrow> pframe c c'"
  by (auto simp: parse_sos_def split: prod.splits option.splits
      intro: pframe_trans [OF read_u16_pframe pframe_trans [OF read_u8_pframe
               pframe_trans [OF sos_comps_pframe sos_skip_pframe]]])

lemma parse_dri_pframe: "parse_dri c = (r, c') \<Longrightarrow> pframe c c'"
  by (auto simp: parse_dri_def read_u16_def read_u8_def pframe_def split: prod.splits if_splits)

lemma skip_marker_pframe: "pframe c (skip_marker c)"
  by (auto simp: skip_marker_def read_u16_def read_u8_def pframe_def split: prod.splits if_splits)

lemma skip_ff_pframe: "skip_ff c = (b, c') \<Longrightarrow> pframe c c'"
proof (induction c rule: skip_ff.induct)
  case (1 c)
  obtain x c1 where r: "read_u8 c = (x, c1)" by (cases "read_u8 c")
  show ?case
  proof (cases "x = 255")
    case True
    with "1.prems" r have "skip_ff c1 = (b, c')" by (simp add: skip_ff.simps [of c])
    from "1.IH" [OF r [symmetric] True this] read_u8_pframe [OF r] show ?thesis
      by (rule pframe_trans [rotated])
  next
    case False
    with "1.prems" r read_u8_pframe [OF r] show ?thesis by (simp add: skip_ff.simps [of c])
  qed
qed

lemma marker_dispatch_pframe:
  assumes "marker_step c = Some (x, c')" and "read_u8 c = (255, c1)" and "skip_ff c1 = (m, c2)"
  shows "pframe c2 c'"
  using assms
  by (auto simp: marker_step_def status_step_def pframe_refl skip_marker_pframe
      split: if_splits option.splits prod.splits
      dest: parse_sof_pframe parse_dht_pframe parse_dqt_pframe parse_dri_pframe parse_sos_pframe)

lemma marker_step_pframe1:
  assumes "marker_step c = Some (x, c')" and r: "read_u8 c = (b, c1)"
  shows "pframe c1 c'"
proof (cases "b = 255")
  case True
  obtain m c2 where k: "skip_ff c1 = (m, c2)" by (cases "skip_ff c1")
  from marker_dispatch_pframe [OF assms(1) r [unfolded True] k] skip_ff_pframe [OF k]
  show ?thesis by (rule pframe_trans [rotated])
next
  case False
  with assms show ?thesis by (simp add: marker_step_def pframe_refl)
qed


lemma marker_step_advance:
  assumes "marker_step c = Some (x, c')" and "pos c < len c"
  shows "len c' = len c \<and> pos c < pos c'"
proof -
  obtain b c1 where r: "read_u8 c = (b, c1)" by (cases "read_u8 c")
  from r assms(2) have p: "pos c1 = pos c + 1" by (auto simp: read_u8_def)
  with marker_step_pframe1 [OF assms(1) r] read_u8_pframe [OF r] show ?thesis
    by (auto simp: pframe_def len_def)
qed

function parse_loop :: "fjctx_t \<Rightarrow> (int \<times> fjctx_t) option" where
  "parse_loop c =
     (if pos c < len c then
        (case marker_step c of
           None \<Rightarrow> None
         | Some (Some r, c') \<Rightarrow> Some (r, c')
         | Some (None, c') \<Rightarrow> parse_loop c')
      else Some (- 1, c))"
  by pat_completeness auto
termination
proof (relation "measure (\<lambda>c. len c - pos c)", goal_cases)
  case 1
  show ?case by simp
next
  case (2 c x2 x1 x2a)
  then have "marker_step c = Some (None, x2a)" by simp
  from marker_step_advance [OF this] 2 show ?case by auto
qed

declare parse_loop.simps [simp del]

definition parse_markers :: "fjctx_t \<Rightarrow> (int \<times> fjctx_t) option" where
  "parse_markers c =
     (case read_u8 c of (b0, c1) \<Rightarrow>
        if b0 \<noteq> 255 then Some (- 1, c1)
        else
          (case read_u8 c1 of (b1, c2) \<Rightarrow>
             if b1 \<noteq> 216 then Some (- 1, c2) else parse_loop c2))"



section \<open>Winograd IDCT\<close>

definition imul_362 :: "int \<Rightarrow> int" where
  "imul_362 w = s16 ((w * 362 + 128) div 256)"

definition imul_669 :: "int \<Rightarrow> int" where
  "imul_669 w = s16 ((w * 669 + 128) div 256)"

definition imul_277 :: "int \<Rightarrow> int" where
  "imul_277 w = s16 ((w * 277 + 128) div 256)"

definition imul_196 :: "int \<Rightarrow> int" where
  "imul_196 w = s16 ((w * 196 + 128) div 256)"

definition DESCALE :: "int \<Rightarrow> int" where
  "DESCALE x = (x + 64) div 128"

definition clamp8 :: "int \<Rightarrow> nat" where
  "clamp8 x = (if x < 0 then 0 else if x > 255 then 255 else nat x)"

text \<open>
  The butterfly that \<open>idct_rows\<close> and \<open>idct_cols\<close> both spell out, on the eight values
  \<open>s = [b0, ..., b7]\<close> of one row or column.  Every \<open>int16_t\<close> local is cut to 16 bits;
  the eight results are the \<open>int\<close> sums that the row pass stores into \<open>int16_t\<close> and the
  column pass hands to \<open>DESCALE\<close>.
\<close>

definition winograd :: "int list \<Rightarrow> int list" where
  "winograd s =
     (let s4 = s ! 5; s7 = s ! 3; x4 = s16 (s4 - s7); x7 = s16 (s4 + s7);
          s5 = s ! 1; s6 = s ! 7; x5 = s16 (s5 + s6); x6 = s16 (s5 - s6);
          t1 = imul_196 (s16 (x4 - x6));
          st26 = s16 (imul_277 x6 - t1);
          x24 = s16 (t1 - imul_669 x4);
          x15 = s16 (x5 - x7); x17 = s16 (x5 + x7);
          t2 = s16 (st26 - x17);
          t3 = s16 (imul_362 x15 - t2);
          x44 = s16 (t3 + x24);
          s0 = s ! 0; s1 = s ! 4;
          x30 = s16 (s0 + s1); x31 = s16 (s0 - s1);
          s2 = s ! 2; s3 = s ! 6;
          x12 = s16 (s2 - s3); x13 = s16 (s2 + s3);
          x32 = s16 (imul_362 x12 - x13);
          x40 = s16 (x30 + x13); x43 = s16 (x30 - x13);
          x41 = s16 (x31 + x32); x42 = s16 (x31 - x32)
      in [x40 + x17, x41 + t2, x42 + t3, x43 - x44, x43 + x44, x42 - t3, x41 - t2, x40 - x17])"

definition idct_row :: "nat \<Rightarrow> int list \<Rightarrow> int list" where
  "idct_row i b =
     (case map (\<lambda>j. b ! (8 * i + j)) [0..<8] of s \<Rightarrow>
        if (s ! 1 OR s ! 2 OR s ! 3 OR s ! 4 OR s ! 5 OR s ! 6 OR s ! 7) = 0 then
          fold (\<lambda>j b. b[8 * i + j := s ! 0]) [1..<8] b
        else
          (case winograd s of r \<Rightarrow> fold (\<lambda>j b. b[8 * i + j := s16 (r ! j)]) [0..<8] b))"

definition idct_rows :: "int list \<Rightarrow> int list" where
  "idct_rows b = fold idct_row [0..<8] b"

definition idct_col :: "int list \<Rightarrow> nat \<Rightarrow> nat list \<Rightarrow> nat list" where
  "idct_col b i out =
     (case map (\<lambda>j. b ! (8 * j + i)) [0..<8] of s \<Rightarrow>
        if (s ! 1 OR s ! 2 OR s ! 3 OR s ! 4 OR s ! 5 OR s ! 6 OR s ! 7) = 0 then
          (case clamp8 (s16 (DESCALE (s ! 0) + 128)) of v \<Rightarrow>
             fold (\<lambda>j out. out[j * 8 + i := v]) [0..<8] out)
        else
          (case winograd s of r \<Rightarrow>
             fold (\<lambda>j out. out[j * 8 + i := clamp8 (s16 (DESCALE (r ! j) + 128))]) [0..<8] out))"

definition idct_cols :: "int list \<Rightarrow> nat list \<Rightarrow> nat list" where
  "idct_cols b out = fold (idct_col b) [0..<8] out"

section \<open>Block decoding\<close>

text \<open>
  The AC loop of \<open>decode_block\<close>, from index \<open>k\<close> on; \<open>q\<close> is the quantization table
  of the component.  The result is the status (0, or -1 for a run past index 63).
\<close>

function ac_loop :: "nat \<Rightarrow> int list \<Rightarrow> nat \<Rightarrow> fjctx_t \<Rightarrow> (int \<times> fjctx_t) option" where
  "ac_loop ac_tab q k c =
     (if k < 64 then
        (case huff_decode c ac_tab of
           None \<Rightarrow> None
         | Some (s, c1) \<Rightarrow>
             if s AND 15 = 0 then
               (if drop_bit 4 s = 15 then ac_loop ac_tab q (k + 15 + 1) c1 else Some (0, c1))
             else if k + drop_bit 4 s \<ge> 64 then Some (- 1, c1)
             else
               (case get_bits c1 (s AND 15) of (v, c2) \<Rightarrow>
                  ac_loop ac_tab q (k + drop_bit 4 s + 1)
                    (c2\<lparr>block := (block c2)[zag ! (k + drop_bit 4 s) :=
                          s16 (huff_extend v (s AND 15) * q ! (k + drop_bit 4 s))]\<rparr>)))
      else Some (0, c))"
  by pat_completeness auto
termination
  by (relation "measure (\<lambda>(ac_tab, q, k, c). 64 - k)") auto

declare ac_loop.simps [simp del]

text \<open>
  \<open>decode_block\<close> for the component \<open>cidx\<close> (\<open>comp\<close> in the source).  The
  quantization table index of the component comes from the SOF
  segment unchecked; an index of 2 or more makes \<open>q\<close> point outside \<open>qtab[2]\<close> and the
  read \<open>q[0]\<close> undefined (\<open>None\<close>).  On failure the sample block \<open>pixels\<close> is left as it
  was.
\<close>

definition decode_block :: "fjctx_t \<Rightarrow> nat \<Rightarrow> nat list \<Rightarrow> (int \<times> fjctx_t \<times> nat list) option" where
  "decode_block c cidx pixels =
     (if comp_qtab c ! cidx \<ge> 2 then None
      else
        (case huff_decode (c\<lparr>block := replicate 64 0\<rparr>) (comp_dc c ! cidx) of
           None \<Rightarrow> None
         | Some (s, c1) \<Rightarrow>
            (case get_bits c1 (s AND 15) of (v, c2) \<Rightarrow>
             case s16 (huff_extend v (s AND 15) + last_dc c2 ! cidx) of dc \<Rightarrow>
             case ac_loop (comp_ac c2 ! cidx + 2) (qtab c2 ! (comp_qtab c2 ! cidx)) 1
                    (c2\<lparr>last_dc := (last_dc c2)[cidx := dc],
                        block := (block c2)[0 := s16 (dc * qtab c2 ! (comp_qtab c2 ! cidx) ! 0)]\<rparr>) of
               None \<Rightarrow> None
             | Some (r, c3) \<Rightarrow>
                 if r \<noteq> 0 then Some (- 1, c3, pixels)
                 else Some (0, c3\<lparr>block := idct_rows (block c3)\<rparr>,
                            idct_cols (idct_rows (block c3)) pixels))))"

section \<open>Restart processing\<close>

text \<open>
  The scan for a restart marker.  Its bound \<open>c->len - 1\<close> is computed in \<open>size_t\<close>:
  with an empty input it wraps around and the loop reads outside the buffer, which
  \<open>process_restart\<close> below answers with \<open>None\<close>; otherwise it is \<open>len - 1\<close>.
\<close>

function restart_scan :: "fjctx_t \<Rightarrow> fjctx_t" where
  "restart_scan c =
     (if pos c < len c - 1 then
        (if data c ! pos c = 255 \<and> data c ! (pos c + 1) \<ge> 208 \<and> data c ! (pos c + 1) \<le> 215
         then c\<lparr>pos := pos c + 2\<rparr>
         else restart_scan (c\<lparr>pos := pos c + 1\<rparr>))
      else c)"
  by pat_completeness auto
termination
  by (relation "measure (\<lambda>c. len c - pos c)") (auto simp: len_def)

declare restart_scan.simps [simp del]

definition process_restart :: "fjctx_t \<Rightarrow> fjctx_t option" where
  "process_restart c =
     (if len c = 0 then None
      else
        (case restart_scan (c\<lparr>nbits := 0, bits := 0\<rparr>) of c1 \<Rightarrow>
           Some (c1\<lparr>last_dc := [0, 0, 0],
                    restarts_left := restart_interval c1,
                    next_restart := (next_restart c1 + 1) AND 7\<rparr>)))"

text \<open>
  What entropy decoding leaves alone: everything but the cursor, the bit reader, the
  DC predictors, the work block and the restart counters.
\<close>

definition dframe :: "fjctx_t \<Rightarrow> fjctx_t \<Rightarrow> bool" where
  "dframe c c' \<longleftrightarrow>
     data c' = data c \<and> fjctx_t.width c' = fjctx_t.width c \<and>
     fjctx_t.height c' = fjctx_t.height c \<and> ncomp c' = ncomp c \<and>
     hsamp c' = hsamp c \<and> vsamp c' = vsamp c \<and> comp_qtab c' = comp_qtab c \<and>
     comp_dc c' = comp_dc c \<and> comp_ac c' = comp_ac c \<and> mcu_w c' = mcu_w c \<and>
     mcu_h c' = mcu_h c \<and> mcus_x c' = mcus_x c \<and> mcus_y c' = mcus_y c \<and>
     qtab c' = qtab c \<and> huff c' = huff c \<and> huff_val c' = huff_val c \<and>
     huff_nval c' = huff_nval c \<and> restart_interval c' = restart_interval c"

lemma dframe_refl: "dframe c c"
  by (simp add: dframe_def)

lemma dframe_trans: "dframe a b \<Longrightarrow> dframe b c \<Longrightarrow> dframe a c"
  by (simp add: dframe_def)

lemma next_byte_dframe: "next_byte c = (b, c1) \<Longrightarrow> dframe c c1"
  by (auto simp: next_byte_def read_u8_def dframe_def split: if_splits prod.splits)

lemma fill_bits_dframe: "dframe c (fill_bits c)"
proof (induction c rule: fill_bits.induct)
  case (1 c)
  obtain b c1 where r: "next_byte c = (b, c1)" by (cases "next_byte c")
  let ?c2 = "c1\<lparr>bits := u32 (bits c1 OR push_bit (24 - nbits c1) b), nbits := nbits c1 + 8\<rparr>"
  show ?case
  proof (cases "nbits c \<le> 24")
    case True
    from next_byte_dframe [OF r] have "dframe c ?c2" by (simp add: dframe_def)
    from dframe_trans [OF this "1.IH" [OF True r [symmetric]]] True r show ?thesis
      by (simp add: fill_bits.simps [of c])
  next
    case False
    then show ?thesis by (simp add: fill_bits.simps [of c] dframe_refl)
  qed
qed

lemma get_bits_dframe: "get_bits c n = (v, c1) \<Longrightarrow> dframe c c1"
  using fill_bits_dframe [of c] by (auto simp: get_bits_def dframe_def split: if_splits)

lemma get_bit_dframe: "get_bit c = (v, c1) \<Longrightarrow> dframe c c1"
  using fill_bits_dframe [of c] by (auto simp: get_bit_def dframe_def)

lemma huff_decode_loop_dframe: "huff_decode_loop table i code c = (v, c') \<Longrightarrow> dframe c c'"
proof (induction table i code c rule: huff_decode_loop.induct)
  case (1 table i code c)
  obtain b c1 where r: "get_bit c = (b, c1)" by (cases "get_bit c")
  let ?hit = "code \<le> max_code (huff c ! table) ! i \<and> max_code (huff c ! table) ! i \<noteq> 65535"
  show ?case
  proof (cases "i < 16 \<and> \<not> ?hit")
    case True
    with "1.prems" r have "huff_decode_loop table (i + 1) (u16 (push_bit 1 code OR b)) c1 = (v, c')"
      by (simp add: huff_decode_loop.simps [of table i code c])
    from "1.IH" [OF _ _ r [symmetric] this] True have "dframe c1 c'" by simp
    with get_bit_dframe [OF r] show ?thesis by (rule dframe_trans)
  next
    case False
    with "1.prems" show ?thesis
      by (auto simp: huff_decode_loop.simps [of table i code c] dframe_refl split: if_splits)
  qed
qed

lemma huff_decode_dframe: "huff_decode c table = Some (v, c') \<Longrightarrow> dframe c c'"
  by (auto simp: huff_decode_def split: if_splits prod.splits
      intro: dframe_trans [OF get_bit_dframe huff_decode_loop_dframe])

lemma ac_loop_dframe: "ac_loop ac_tab q k c = Some (r, c') \<Longrightarrow> dframe c c'"
proof (induction ac_tab q k c rule: ac_loop.induct)
  case (1 ac_tab q k c)
  show ?case
  proof (cases "k < 64")
    case True
    with "1.prems" obtain s c1 where h: "huff_decode c ac_tab = Some (s, c1)"
      by (auto simp: ac_loop.simps [of ac_tab q k c] split: option.splits)
    note f1 = huff_decode_dframe [OF h]
    obtain v c2 where g: "get_bits c1 (s AND 15) = (v, c2)" by (cases "get_bits c1 (s AND 15)")
    let ?c3 = "c2\<lparr>block := (block c2)[zag ! (k + drop_bit 4 s) :=
                   s16 (huff_extend v (s AND 15) * q ! (k + drop_bit 4 s))]\<rparr>"
    consider (zrl) "s AND 15 = 0" "drop_bit 4 s = 15"
      | (eob) "s AND 15 = 0" "drop_bit 4 s \<noteq> 15"
      | (ovf) "s AND 15 \<noteq> 0" "k + drop_bit 4 s \<ge> 64"
      | (coef) "s AND 15 \<noteq> 0" "\<not> k + drop_bit 4 s \<ge> 64"
      by blast
    then show ?thesis
    proof cases
      case zrl
      with "1.prems" True h have "ac_loop ac_tab q (k + 15 + 1) c1 = Some (r, c')"
        by (simp add: ac_loop.simps [of ac_tab q k c])
      from "1.IH"(1) [OF True h refl zrl this] f1 show ?thesis by (rule dframe_trans [rotated])
    next
      case eob
      with "1.prems" True h f1 show ?thesis by (simp add: ac_loop.simps [of ac_tab q k c])
    next
      case ovf
      with "1.prems" True h f1 show ?thesis by (simp add: ac_loop.simps [of ac_tab q k c])
    next
      case coef
      with "1.prems" True h g have "ac_loop ac_tab q (k + drop_bit 4 s + 1) ?c3 = Some (r, c')"
        by (simp add: ac_loop.simps [of ac_tab q k c])
      from "1.IH"(2) [OF True h refl coef g [symmetric] this] have "dframe ?c3 c'" .
      moreover from get_bits_dframe [OF g] have "dframe c1 ?c3" by (simp add: dframe_def)
      ultimately show ?thesis using f1 by (blast intro: dframe_trans)
    qed
  next
    case False
    with "1.prems" show ?thesis by (simp add: ac_loop.simps [of ac_tab q k c] dframe_refl)
  qed
qed

lemma decode_block_dframe:
  assumes "decode_block c cidx pixels = Some (r, c', px)"
  shows "dframe c c'"
proof -
  from assms obtain s c1 where h: "huff_decode (c\<lparr>block := replicate 64 0\<rparr>) (comp_dc c ! cidx) = Some (s, c1)"
    by (auto simp: decode_block_def split: if_splits option.splits)
  obtain v c2 where g: "get_bits c1 (s AND 15) = (v, c2)" by (cases "get_bits c1 (s AND 15)")
  let ?dc = "s16 (huff_extend v (s AND 15) + last_dc c2 ! cidx)"
  let ?c2' = "c2\<lparr>last_dc := (last_dc c2)[cidx := ?dc],
                  block := (block c2)[0 := s16 (?dc * qtab c2 ! (comp_qtab c2 ! cidx) ! 0)]\<rparr>"
  from assms h g obtain r3 c3 where
    a: "ac_loop (comp_ac c2 ! cidx + 2) (qtab c2 ! (comp_qtab c2 ! cidx)) 1 ?c2' = Some (r3, c3)"
    and c': "c' = c3 \<or> c' = c3\<lparr>block := idct_rows (block c3)\<rparr>"
    by (auto simp: decode_block_def split: if_splits option.splits)
  from huff_decode_dframe [OF h] have "dframe c c1" by (simp add: dframe_def)
  moreover from get_bits_dframe [OF g] have "dframe c1 ?c2'" by (simp add: dframe_def)
  moreover note ac_loop_dframe [OF a]
  moreover from c' have "dframe c3 c'" by (auto simp: dframe_def)
  ultimately show ?thesis by (blast intro: dframe_trans)
qed

lemma restart_scan_dframe: "dframe c (restart_scan c)"
proof (induction c rule: restart_scan.induct)
  case (1 c)
  let ?hit = "data c ! pos c = 255 \<and> data c ! (pos c + 1) \<ge> 208 \<and> data c ! (pos c + 1) \<le> 215"
  show ?case
  proof (cases "pos c < len c - 1")
    case True
    show ?thesis
    proof (cases ?hit)
      case h: True
      have "dframe c (c\<lparr>pos := pos c + 2\<rparr>)" by (simp add: dframe_def)
      with True h show ?thesis by (simp add: restart_scan.simps [of c])
    next
      case h: False
      have "dframe c (c\<lparr>pos := pos c + 1\<rparr>)" by (simp add: dframe_def)
      from dframe_trans [OF this "1.IH" [OF True h]] True h show ?thesis
        by (auto simp: restart_scan.simps [of c])
    qed
  next
    case False
    then show ?thesis
      by (simp add: restart_scan.simps [of c] dframe_refl)
  qed
qed

lemma process_restart_dframe: "process_restart c = Some c' \<Longrightarrow> dframe c c'"
  using restart_scan_dframe [of "c\<lparr>nbits := 0, bits := 0\<rparr>"]
  by (auto simp: process_restart_def dframe_def split: if_splits)

section \<open>The decode entry\<close>

text \<open>
  The locals of \<open>fjpeg_decode\<close> that its loops share.  \<open>y_blocks\<close>, \<open>cb_block\<close>,
  \<open>cr_block\<close> and the row buffer start uninitialised in C; each is written before it
  is read, so their first contents in the model (zeros) are never seen.
\<close>

record decode_locals =
  row_stride :: nat
  h_shift :: nat
  v_shift :: nat
  ny_h :: nat
  ny_v :: nat
  y_blocks :: "nat list list"
  cb_block :: "nat list"
  cr_block :: "nat list"
  row_buf :: "nat list"

definition sat255 :: "int \<Rightarrow> nat" where
  "sat255 x = (if x < 0 then 0 else if x > 255 then 255 else nat x)"

text \<open>YCbCr to RGB in fixed point, saturated, packed as RGB565.\<close>

definition rgb565 :: "nat \<Rightarrow> nat \<Rightarrow> nat \<Rightarrow> nat" where
  "rgb565 Y Cb_v Cr_v =
     (let cr = int Cr_v - 128;
          cb_val = int Cb_v - 128;
          r = sat255 (int Y + (cr * 359) div 256);
          g = sat255 (int Y - (cb_val * 88 + cr * 183) div 256);
          b = sat255 (int Y + (cb_val * 454) div 256)
      in u16 (push_bit 8 (r AND 248) OR push_bit 3 (g AND 252) OR drop_bit 3 b))"

text \<open>
  The pixel \<open>(py, px)\<close> of the current MCU.  A read outside a sample block (possible
  with sampling factors above 2) is undefined in C: \<open>None\<close>.
\<close>

definition mcu_pixel :: "fjctx_t \<Rightarrow> decode_locals \<Rightarrow> nat \<Rightarrow> nat \<Rightarrow> nat option" where
  "mcu_pixel c L py px =
     (if ncomp c = 1 then
        (if py * 8 + px < 64 then Some (rgb565 (y_blocks L ! 0 ! (py * 8 + px)) 128 128)
         else None)
      else
        (if drop_bit 3 py * ny_h L + drop_bit 3 px < 4 \<and>
            drop_bit (v_shift L) py * 8 + drop_bit (h_shift L) px < 64 then
           Some (rgb565
             (y_blocks L ! (drop_bit 3 py * ny_h L + drop_bit 3 px) ! ((py AND 7) * 8 + (px AND 7)))
             (cb_block L ! (drop_bit (v_shift L) py * 8 + drop_bit (h_shift L) px))
             (cr_block L ! (drop_bit (v_shift L) py * 8 + drop_bit (h_shift L) px)))
         else None))"

function px_loop :: "fjctx_t \<Rightarrow> decode_locals \<Rightarrow> nat \<Rightarrow> nat \<Rightarrow> nat \<Rightarrow> decode_locals option" where
  "px_loop c L px0 py px =
     (if px < mcu_w c then
        (if px0 + px \<ge> fjctx_t.width c then Some L
         else
           (case mcu_pixel c L py px of
              None \<Rightarrow> None
            | Some v \<Rightarrow>
                if py * row_stride L + (px0 + px) < length (row_buf L) then
                  px_loop c (L\<lparr>row_buf := (row_buf L)[py * row_stride L + (px0 + px) := v]\<rparr>)
                    px0 py (px + 1)
                else None))
      else Some L)"
  by pat_completeness auto
termination
  by (relation "measure (\<lambda>(c, L, px0, py, px). mcu_w c - px)") auto

declare px_loop.simps [simp del]

function py_loop :: "fjctx_t \<Rightarrow> decode_locals \<Rightarrow> nat \<Rightarrow> nat \<Rightarrow> nat \<Rightarrow> decode_locals option" where
  "py_loop c L mcu_y px0 py =
     (if py < mcu_h c then
        (if mcu_y * mcu_h c + py \<ge> fjctx_t.height c then Some L
         else
           (case px_loop c L px0 py 0 of
              None \<Rightarrow> None
            | Some L' \<Rightarrow> py_loop c L' mcu_y px0 (py + 1)))
      else Some L)"
  by pat_completeness auto
termination
  by (relation "measure (\<lambda>(c, L, mcu_y, px0, py). mcu_h c - py)") auto

declare py_loop.simps [simp del]

text \<open>
  The Y blocks of one MCU, \<open>ny_v\<close> rows of \<open>ny_h\<close> blocks.  \<open>y_blocks\<close> has 4 entries;
  a fifth block (sampling factors above 2) is written outside it: \<open>None\<close>.
\<close>

function y_loop ::
  "fjctx_t \<Rightarrow> decode_locals \<Rightarrow> nat \<Rightarrow> nat \<Rightarrow> (int \<times> fjctx_t \<times> decode_locals) option" where
  "y_loop c L vy hx =
     (if vy < ny_v L then
        (if hx < ny_h L then
           (if vy * ny_h L + hx < 4 then
              (case decode_block c 0 (y_blocks L ! (vy * ny_h L + hx)) of
                 None \<Rightarrow> None
               | Some (r, c1, px) \<Rightarrow>
                   if r \<noteq> 0 then Some (- 1, c1, L)
                   else y_loop c1 (L\<lparr>y_blocks := (y_blocks L)[vy * ny_h L + hx := px]\<rparr>)
                          vy (hx + 1))
            else None)
         else y_loop c L (vy + 1) 0)
      else Some (0, c, L))"
  by pat_completeness auto
termination
  by (relation "measures [\<lambda>(c, L, vy, hx). ny_v L - vy, \<lambda>(c, L, vy, hx). ny_h L - hx]") auto

declare y_loop.simps [simp del]

definition decode_chroma ::
  "fjctx_t \<Rightarrow> decode_locals \<Rightarrow> (int \<times> fjctx_t \<times> decode_locals) option" where
  "decode_chroma c L =
     (if ncomp c = 3 then
        (case decode_block c 1 (cb_block L) of
           None \<Rightarrow> None
         | Some (r, c1, px) \<Rightarrow>
             if r \<noteq> 0 then Some (- 1, c1, L)
             else
               (case decode_block c1 2 (cr_block L) of
                  None \<Rightarrow> None
                | Some (r2, c2, px2) \<Rightarrow>
                    if r2 \<noteq> 0 then Some (- 1, c2, L\<lparr>cb_block := px\<rparr>)
                    else Some (0, c2, L\<lparr>cb_block := px, cr_block := px2\<rparr>)))
      else Some (0, c, L))"

definition restart_check :: "fjctx_t \<Rightarrow> fjctx_t option" where
  "restart_check c =
     (if restart_interval c \<noteq> 0 then
        (case (if restarts_left c = 0 then process_restart c else Some c) of
           None \<Rightarrow> None
         | Some c1 \<Rightarrow> Some (c1\<lparr>restarts_left := u16i (int (restarts_left c1) - 1)\<rparr>))
      else Some c)"

text \<open>One MCU: restart check, Y blocks, chroma blocks, conversion into the row buffer.\<close>

definition decode_mcu ::
  "fjctx_t \<Rightarrow> decode_locals \<Rightarrow> nat \<Rightarrow> nat \<Rightarrow> (int \<times> fjctx_t \<times> decode_locals) option" where
  "decode_mcu c L mcu_y mcu_x =
     (case restart_check c of
        None \<Rightarrow> None
      | Some c1 \<Rightarrow>
         (case y_loop c1 L 0 0 of
            None \<Rightarrow> None
          | Some (r, c2, L2) \<Rightarrow>
              if r \<noteq> 0 then Some (- 1, c2, L2)
              else
                (case decode_chroma c2 L2 of
                   None \<Rightarrow> None
                 | Some (r3, c3, L3) \<Rightarrow>
                     if r3 \<noteq> 0 then Some (- 1, c3, L3)
                     else
                       (case py_loop c3 L3 mcu_y (mcu_x * mcu_w c3) 0 of
                          None \<Rightarrow> None
                        | Some L4 \<Rightarrow> Some (0, c3, L4)))))"

lemma y_loop_dframe: "y_loop c L vy hx = Some (r, c', L') \<Longrightarrow> dframe c c'"
proof (induction c L vy hx rule: y_loop.induct)
  case (1 c L vy hx)
  show ?case
  proof (cases "vy < ny_v L")
    case v: True
    show ?thesis
    proof (cases "hx < ny_h L")
      case h: True
      with v "1.prems" have i4: "vy * ny_h L + hx < 4"
        by (auto simp: y_loop.simps [of c L vy hx] split: if_splits)
      with v h "1.prems" obtain r1 c1 px where
        d: "decode_block c 0 (y_blocks L ! (vy * ny_h L + hx)) = Some (r1, c1, px)"
        by (auto simp: y_loop.simps [of c L vy hx] split: option.splits)
      note f = decode_block_dframe [OF d]
      show ?thesis
      proof (cases "r1 \<noteq> 0")
        case True
        with v h i4 d "1.prems" f show ?thesis by (simp add: y_loop.simps [of c L vy hx])
      next
        case False
        with v h i4 d "1.prems" have
          "y_loop c1 (L\<lparr>y_blocks := (y_blocks L)[vy * ny_h L + hx := px]\<rparr>) vy (hx + 1) = Some (r, c', L')"
          by (simp add: y_loop.simps [of c L vy hx])
        from "1.IH"(1) [OF v h i4 d refl refl False this] have "dframe c1 c'" .
        with f show ?thesis by (rule dframe_trans)
      qed
    next
      case h: False
      with v "1.prems" have "y_loop c L (vy + 1) 0 = Some (r, c', L')"
        by (simp add: y_loop.simps [of c L vy hx])
      from "1.IH"(2) [OF v h this] show ?thesis .
    qed
  next
    case False
    with "1.prems" show ?thesis by (simp add: y_loop.simps [of c L vy hx] dframe_refl)
  qed
qed

lemma restart_check_dframe: "restart_check c = Some c' \<Longrightarrow> dframe c c'"
  by (auto simp: restart_check_def dframe_def split: if_splits option.splits
      dest!: process_restart_dframe)

lemma decode_chroma_dframe: "decode_chroma c L = Some (r, c', L') \<Longrightarrow> dframe c c'"
  by (auto simp: decode_chroma_def dframe_refl split: if_splits option.splits
      dest!: decode_block_dframe) (simp_all add: dframe_def)

lemma decode_mcu_dframe:
  assumes "decode_mcu c L mcu_y mcu_x = Some (r, c', L')"
  shows "dframe c c'"
  using assms
  by (auto simp: decode_mcu_def split: if_splits option.splits
      dest!: restart_check_dframe y_loop_dframe decode_chroma_dframe) (simp_all add: dframe_def)

function mcu_x_loop ::
  "fjctx_t \<Rightarrow> decode_locals \<Rightarrow> nat \<Rightarrow> nat \<Rightarrow> (int \<times> fjctx_t \<times> decode_locals) option" where
  "mcu_x_loop c L mcu_y mcu_x =
     (if mcu_x < mcus_x c then
        (case decode_mcu c L mcu_y mcu_x of
           None \<Rightarrow> None
         | Some (r, c', L') \<Rightarrow>
             if r \<noteq> 0 then Some (- 1, c', L') else mcu_x_loop c' L' mcu_y (mcu_x + 1))
      else Some (0, c, L))"
  by pat_completeness auto
termination
proof (relation "measure (\<lambda>(c, L, mcu_y, mcu_x). mcus_x c - mcu_x)", goal_cases)
  case 1
  show ?case by simp
next
  case (2 c L mcu_y mcu_x x2 x1 x2a x1a x2b)
  then have "decode_mcu c L mcu_y mcu_x = Some (x1, x1a, x2b)" by simp
  from decode_mcu_dframe [OF this] 2 show ?case by (simp add: dframe_def)
qed

declare mcu_x_loop.simps [simp del]

lemma mcu_x_loop_dframe: "mcu_x_loop c L mcu_y mcu_x = Some (r, c', L') \<Longrightarrow> dframe c c'"
proof (induction c L mcu_y mcu_x rule: mcu_x_loop.induct)
  case (1 c L mcu_y mcu_x)
  show ?case
  proof (cases "mcu_x < mcus_x c")
    case True
    with "1.prems" obtain r1 c1 L1 where d: "decode_mcu c L mcu_y mcu_x = Some (r1, c1, L1)"
      by (auto simp: mcu_x_loop.simps [of c L mcu_y mcu_x] split: option.splits)
    note f = decode_mcu_dframe [OF d]
    show ?thesis
    proof (cases "r1 \<noteq> 0")
      case r: True
      with True d "1.prems" f show ?thesis by (simp add: mcu_x_loop.simps [of c L mcu_y mcu_x])
    next
      case r: False
      with True d "1.prems" have "mcu_x_loop c1 L1 mcu_y (mcu_x + 1) = Some (r, c', L')"
        by (simp add: mcu_x_loop.simps [of c L mcu_y mcu_x])
      from "1.IH" [OF True d refl refl r this] f show ?thesis by (rule dframe_trans [rotated])
    qed
  next
    case False
    with "1.prems" show ?thesis by (simp add: mcu_x_loop.simps [of c L mcu_y mcu_x] dframe_refl)
  qed
qed

text \<open>
  The sink.  The callback is the caller's; what the decoder does to it is the sequence
  of its calls.  A call \<open>cb(y, w, row, user)\<close> is recorded as \<open>(y, w, row)\<close> with \<open>row\<close>
  the \<open>w\<close> pixels the pointer points to.
\<close>

type_synonym sink_call = "nat \<times> nat \<times> nat list"

function deliver ::
  "fjctx_t \<Rightarrow> decode_locals \<Rightarrow> nat \<Rightarrow> nat \<Rightarrow> sink_call list \<Rightarrow> sink_call list" where
  "deliver c L mcu_y py calls =
     (if py < mcu_h c then
        (if mcu_y * mcu_h c + py \<ge> fjctx_t.height c then calls
         else deliver c L mcu_y (py + 1)
                (calls @ [(mcu_y * mcu_h c + py, fjctx_t.width c,
                           take (fjctx_t.width c) (drop (py * row_stride L) (row_buf L)))]))
      else calls)"
  by pat_completeness auto
termination
  by (relation "measure (\<lambda>(c, L, mcu_y, py, calls). mcu_h c - py)") auto

declare deliver.simps [simp del]

text \<open>
  The loop over MCU rows.  Its result is the return value of \<open>fjpeg_decode\<close> and the
  calls made to the sink.
\<close>

function mcu_y_loop ::
  "fjctx_t \<Rightarrow> decode_locals \<Rightarrow> nat \<Rightarrow> sink_call list \<Rightarrow> (int \<times> sink_call list) option" where
  "mcu_y_loop c L mcu_y calls =
     (if mcu_y < mcus_y c then
        (case mcu_x_loop c (L\<lparr>row_buf := replicate (row_stride L * mcu_h c) 0\<rparr>) mcu_y 0 of
           None \<Rightarrow> None
         | Some (r, c', L') \<Rightarrow>
             if r \<noteq> 0 then Some (- 1, calls)
             else mcu_y_loop c' L' (mcu_y + 1) (deliver c' L' mcu_y 0 calls))
      else Some (0, calls))"
  by pat_completeness auto
termination
proof (relation "measure (\<lambda>(c, L, mcu_y, calls). mcus_y c - mcu_y)", goal_cases)
  case 1
  show ?case by simp
next
  case (2 c L mcu_y calls x2 x1 x2a x1a x2b)
  then have "mcu_x_loop c (L\<lparr>row_buf := replicate (row_stride L * mcu_h c) 0\<rparr>) mcu_y 0
             = Some (x1, x1a, x2b)" by simp
  from mcu_x_loop_dframe [OF this] 2 show ?case by (simp add: dframe_def)
qed

declare mcu_y_loop.simps [simp del]

text \<open>\<open>memset(&ctx, 0, sizeof(ctx)); ctx.data = data; ctx.len = len;\<close>\<close>

definition ctx_init :: "nat list \<Rightarrow> fjctx_t" where
  "ctx_init buf =
     \<lparr>data = buf, pos = 0, bits = 0, nbits = 0,
      width = 0, height = 0, ncomp = 0,
      hsamp = replicate 3 0, vsamp = replicate 3 0,
      comp_qtab = replicate 3 0, comp_dc = replicate 3 0, comp_ac = replicate 3 0,
      last_dc = replicate 3 0,
      mcu_w = 0, mcu_h = 0, mcus_x = 0, mcus_y = 0,
      qtab = replicate 2 (replicate 64 0),
      huff = replicate 4
        \<lparr>min_code = replicate 16 0, max_code = replicate 16 0, val_ptr = replicate 16 0\<rparr>,
      huff_val = replicate 4 (replicate 256 0),
      huff_nval = replicate 4 0,
      restart_interval = 0, restarts_left = 0, next_restart = 0,
      block = replicate 64 0\<rparr>"

definition locals_init :: "fjctx_t \<Rightarrow> decode_locals" where
  "locals_init c =
     \<lparr>row_stride = fjctx_t.width c,
      h_shift = (if ncomp c > 1 \<and> hsamp c ! 0 > 1 then 1 else 0),
      v_shift = (if ncomp c > 1 \<and> vsamp c ! 0 > 1 then 1 else 0),
      ny_h = (if ncomp c = 1 then 1 else hsamp c ! 0),
      ny_v = (if ncomp c = 1 then 1 else vsamp c ! 0),
      y_blocks = replicate 4 (replicate 64 0),
      cb_block = replicate 64 0,
      cr_block = replicate 64 0,
      row_buf = replicate (fjctx_t.width c * mcu_h c) 0\<rparr>"

text \<open>
  \<open>fjpeg_decode\<close>.  \<open>malloc_ok n\<close> says whether the allocation of \<open>n\<close> bytes for the row
  buffer succeeds.  The result is \<open>None\<close> where the C program has no defined behaviour,
  and otherwise the return value with the calls made to the sink.
\<close>

definition fjpeg_decode :: "(nat \<Rightarrow> bool) \<Rightarrow> nat list \<Rightarrow> (int \<times> sink_call list) option" where
  "fjpeg_decode malloc_ok buf =
     (case parse_markers (ctx_init buf) of
        None \<Rightarrow> None
      | Some (r, c) \<Rightarrow>
          if r \<noteq> 0 then Some (- 1, [])
          else if fjctx_t.width c = 0 \<or> fjctx_t.height c = 0 then Some (- 1, [])
          else
            (case (if restart_interval c \<noteq> 0
                   then c\<lparr>restarts_left := restart_interval c, next_restart := 0\<rparr>
                   else c) of c1 \<Rightarrow>
               if \<not> malloc_ok (fjctx_t.width c1 * mcu_h c1 * 2) then Some (- 1, [])
               else mcu_y_loop c1 (locals_init c1) 0 []))"

section \<open>The dimension probe\<close>

text \<open>
  \<open>fjpeg_info\<close>.  The pointer \<open>p\<close> is its offset into the buffer; \<open>p + 4 <= end\<close> is a
  comparison of offsets.  The loop from offset \<open>p\<close> on:
\<close>

function info_loop :: "nat list \<Rightarrow> nat \<Rightarrow> fjpeg_info_t \<Rightarrow> int \<times> fjpeg_info_t" where
  "info_loop buf p info =
     (if p + 4 \<le> length buf then
        (if buf ! p \<noteq> 255 then info_loop buf (p + 1) info
         else if buf ! (p + 1) = 192 then
           (if p + 9 > length buf then (- 1, info)
            else (0, info\<lparr>fjpeg_info_t.height := u16 (push_bit 8 (buf ! (p + 5)) OR buf ! (p + 6)),
                          fjpeg_info_t.width := u16 (push_bit 8 (buf ! (p + 7)) OR buf ! (p + 8))\<rparr>))
         else if buf ! (p + 1) = 217 then (- 1, info)
         else info_loop buf (p + 2 + u16 (push_bit 8 (buf ! (p + 2)) OR buf ! (p + 3))) info)
      else (- 1, info))"
  by pat_completeness auto
termination
  by (relation "measure (\<lambda>(buf, p, info). length buf - p)") auto

declare info_loop.simps [simp del]

definition fjpeg_info :: "nat list \<Rightarrow> fjpeg_info_t \<Rightarrow> int \<times> fjpeg_info_t" where
  "fjpeg_info buf info =
     (if length buf < 2 \<or> buf ! 0 \<noteq> 255 \<or> buf ! 1 \<noteq> 216 then (- 1, info)
      else info_loop buf 2 info)"

section \<open>Reading in closed form\<close>

text \<open>
  The byte a read at offset \<open>k\<close> returns (0 past the end of the input), and the cursor
  after \<open>n\<close> successive reads.
\<close>

definition byte_at :: "fjctx_t \<Rightarrow> nat \<Rightarrow> nat" where
  "byte_at c k = (if k < len c then data c ! k else 0)"

definition seek :: "fjctx_t \<Rightarrow> nat \<Rightarrow> nat" where
  "seek c n = (if len c \<le> pos c then pos c else min (pos c + n) (len c))"

text \<open>
  Entry \<open>i\<close> of a quantization table that starts at the cursor of \<open>c\<close>: \<open>dqt_raw\<close> is the
  value in the segment (one byte, or two bytes big-endian when \<open>prec\<close> is nonzero),
  \<open>dqt_val\<close> what \<open>parse_dqt\<close> holds in its \<open>int16_t val\<close>, \<open>dqt_scaled\<close> what it stores
  after the multiplication by the Winograd factor.
\<close>

definition dqt_raw :: "fjctx_t \<Rightarrow> nat \<Rightarrow> nat \<Rightarrow> nat" where
  "dqt_raw c prec i =
     (if prec \<noteq> 0 then
        push_bit 8 (byte_at c (pos c + 2 * i)) OR byte_at c (pos c + 2 * i + 1)
      else byte_at c (pos c + i))"

definition dqt_val :: "fjctx_t \<Rightarrow> nat \<Rightarrow> nat \<Rightarrow> int" where
  "dqt_val c prec i = (if prec \<noteq> 0 then s16 (int (dqt_raw c prec i)) else int (dqt_raw c prec i))"

definition dqt_width :: "nat \<Rightarrow> nat" where
  "dqt_width prec = (if prec \<noteq> 0 then 2 else 1)"

definition dqt_scaled :: "fjctx_t \<Rightarrow> nat \<Rightarrow> nat \<Rightarrow> int" where
  "dqt_scaled c prec i = s16 ((dqt_val c prec i * int (wquant ! i) + 4) div 8)"

text \<open>A DQT segment with one 16-bit table whose first entry is 0x1000.\<close>

definition dqt16_segment :: "nat list" where
  "dqt16_segment = [0, 131, 16, 16, 0] @ replicate 126 0"

text \<open>
  A DQT segment with two 8-bit tables: id 0 with every entry 2, id 1 with every entry 3.
\<close>

definition dqt2_segment :: "nat list" where
  "dqt2_segment = [0, 132, 0] @ replicate 64 2 @ [1] @ replicate 64 3"

text \<open>\<open>int16_t qtab[2][64]\<close>: the shape of the quantization tables.\<close>

definition qtab_ok :: "fjctx_t \<Rightarrow> bool" where
  "qtab_ok c \<longleftrightarrow> length (qtab c) = 2 \<and> length (qtab c ! 0) = 64 \<and> length (qtab c ! 1) = 64"

text \<open>
  The state after one table of a DQT segment, in closed form: the table header is the
  byte at the cursor of \<open>c\<close>, the entries follow it, and the table it selects holds the
  64 scaled values.
\<close>

definition dqt_next :: "fjctx_t \<Rightarrow> fjctx_t" where
  "dqt_next c =
     c\<lparr>pos := seek (c\<lparr>pos := seek c 1\<rparr>) (dqt_width (drop_bit 4 (byte_at c (pos c))) * 64),
       qtab := (qtab c)[byte_at c (pos c) AND 15 :=
         map (dqt_scaled (c\<lparr>pos := seek c 1\<rparr>) (drop_bit 4 (byte_at c (pos c)))) [0..<64]]\<rparr>"

section \<open>Test inputs\<close>




section \<open>Properties\<close>

subsection \<open>The byte reader\<close>

text \<open>
  C4, as the code has it.  In every state: where there is a next byte, \<open>next_byte\<close>
  consumes an 0xFF and the 0x00 after it and returns 0xFF; at an 0xFF followed by a
  nonzero byte it leaves the cursor on the 0xFF (two positions rewound after the two
  reads) and returns 0; otherwise it consumes and returns the next byte (also an 0xFF
  that is the last byte of the input).  At the end of the input it consumes nothing and
  returns 0.  Nothing but the cursor changes.
\<close>

theorem next_byte_spec:
  "next_byte c =
     (if pos c < len c then
        (if data c ! pos c = 255 \<and> pos c + 1 < len c \<and> data c ! (pos c + 1) = 0
           then (255, c\<lparr>pos := pos c + 2\<rparr>)
         else if data c ! pos c = 255 \<and> pos c + 1 < len c \<and> data c ! (pos c + 1) \<noteq> 0
           then (0, c)
         else (data c ! pos c, c\<lparr>pos := pos c + 1\<rparr>))
      else (0, c))"
  by (simp add: next_byte_def read_u8_def len_def)

theorem next_byte_spec_witness:
  "next_byte (ctx_init [255, 0, 7]) = (255, (ctx_init [255, 0, 7])\<lparr>pos := 2\<rparr>) \<and>
   next_byte ((ctx_init [7, 255, 208])\<lparr>pos := 1\<rparr>) = (0, (ctx_init [7, 255, 208])\<lparr>pos := 1\<rparr>) \<and>
   next_byte (ctx_init [7, 255, 208]) = (7, (ctx_init [7, 255, 208])\<lparr>pos := 1\<rparr>) \<and>
   next_byte ((ctx_init [7, 255])\<lparr>pos := 1\<rparr>) = (255, (ctx_init [7, 255])\<lparr>pos := 2\<rparr>) \<and>
   next_byte ((ctx_init [7, 255])\<lparr>pos := 2\<rparr>) = (0, (ctx_init [7, 255])\<lparr>pos := 2\<rparr>)"
  using next_byte_spec [of "ctx_init [255, 0, 7]"]
    next_byte_spec [of "(ctx_init [7, 255, 208])\<lparr>pos := 1\<rparr>"]
    next_byte_spec [of "ctx_init [7, 255, 208]"]
    next_byte_spec [of "(ctx_init [7, 255])\<lparr>pos := 1\<rparr>"]
    next_byte_spec [of "(ctx_init [7, 255])\<lparr>pos := 2\<rparr>"]
  by (simp add: ctx_init_def len_def)

text \<open>
  The claim as stated fails at the end of the input, a state \<open>fill_bits\<close> reaches on
  every truncated stream: there is no next byte, the cursor stays where it is and the
  result is 0.
\<close>

theorem next_byte_eof_counterexample:
  "\<not> pos ((ctx_init [7, 255])\<lparr>pos := 2\<rparr>) < len ((ctx_init [7, 255])\<lparr>pos := 2\<rparr>) \<and>
   fst (next_byte ((ctx_init [7, 255])\<lparr>pos := 2\<rparr>)) = 0 \<and>
   pos (snd (next_byte ((ctx_init [7, 255])\<lparr>pos := 2\<rparr>))) = 2"
  by (simp add: next_byte_def read_u8_def len_def ctx_init_def)

subsection \<open>The probe leaves its out-parameter alone on failure\<close>

lemma info_loop_result:
  "info_loop buf p info = (r, info') \<Longrightarrow>
   (r = - 1 \<and> info' = info) \<or>
   (r = 0 \<and> (\<exists>q. q + 9 \<le> length buf \<and> buf ! q = 255 \<and> buf ! (q + 1) = 192 \<and>
      info' = info\<lparr>fjpeg_info_t.height := u16 (push_bit 8 (buf ! (q + 5)) OR buf ! (q + 6)),
                     fjpeg_info_t.width := u16 (push_bit 8 (buf ! (q + 7)) OR buf ! (q + 8))\<rparr>))"
proof (induction buf p info rule: info_loop.induct)
  case (1 buf p info)
  show ?case
  proof (cases "p + 4 \<le> length buf")
    case True
    consider (skip) "buf ! p \<noteq> 255"
      | (sof) "buf ! p = 255" "buf ! (p + 1) = 192"
      | (eoi) "buf ! p = 255" "buf ! (p + 1) \<noteq> 192" "buf ! (p + 1) = 217"
      | (seg) "buf ! p = 255" "buf ! (p + 1) \<noteq> 192" "buf ! (p + 1) \<noteq> 217"
      by blast
    then show ?thesis
    proof cases
      case skip
      with True "1.prems" have "info_loop buf (p + 1) info = (r, info')"
        by (simp add: info_loop.simps [of buf p info])
      from "1.IH"(1) [OF True skip this] show ?thesis .
    next
      case sof
      show ?thesis
      proof (cases "p + 9 > length buf")
        case t: True
        with sof True "1.prems" show ?thesis by (simp add: info_loop.simps [of buf p info])
      next
        case f: False
        with sof True "1.prems" have "r = 0" and
          "info' = info\<lparr>fjpeg_info_t.height := u16 (push_bit 8 (buf ! (p + 5)) OR buf ! (p + 6)),
                         fjpeg_info_t.width := u16 (push_bit 8 (buf ! (p + 7)) OR buf ! (p + 8))\<rparr>"
          by (simp_all add: info_loop.simps [of buf p info])
        moreover from f have "p + 9 \<le> length buf" by simp
        ultimately show ?thesis using sof by blast
      qed
    next
      case eoi
      with True "1.prems" show ?thesis
        by (simp add: info_loop.simps [of buf p info])
    next
      case seg
      with True "1.prems" have
        "info_loop buf (p + 2 + u16 (push_bit 8 (buf ! (p + 2)) OR buf ! (p + 3))) info = (r, info')"
        by (simp add: info_loop.simps [of buf p info])
      from "1.IH"(2) [OF True _ seg(2) seg(3) this] seg(1) show ?thesis by simp
    qed
  next
    case False
    with "1.prems" show ?thesis by (simp add: info_loop.simps [of buf p info])
  qed
qed

text \<open>
  C10.  Whenever \<open>fjpeg_info\<close> returns nonzero, the \<open>fjpeg_info_t\<close> it was given is
  unchanged; and when it returns 0, a complete SOF0 header (the marker \<open>FF C0\<close> with 9
  bytes inside the buffer) was found, from which height and width were taken.
\<close>

theorem fjpeg_info_frame:
  "(fst (fjpeg_info buf info) \<noteq> 0 \<longrightarrow> snd (fjpeg_info buf info) = info) \<and>
   (fst (fjpeg_info buf info) = 0 \<longrightarrow>
      (\<exists>q. q + 9 \<le> length buf \<and> buf ! q = 255 \<and> buf ! (q + 1) = 192 \<and>
         snd (fjpeg_info buf info) =
           info\<lparr>fjpeg_info_t.height := u16 (push_bit 8 (buf ! (q + 5)) OR buf ! (q + 6)),
                 fjpeg_info_t.width := u16 (push_bit 8 (buf ! (q + 7)) OR buf ! (q + 8))\<rparr>))"
proof (cases "length buf < 2 \<or> buf ! 0 \<noteq> 255 \<or> buf ! 1 \<noteq> 216")
  case True
  then show ?thesis by (simp add: fjpeg_info_def)
next
  case False
  obtain r info' where e: "info_loop buf 2 info = (r, info')" by (cases "info_loop buf 2 info")
  from info_loop_result [OF e] False e show ?thesis by (auto simp: fjpeg_info_def)
qed

theorem fjpeg_info_frame_witness:
  "fst (fjpeg_info [255, 216, 255, 192, 0, 11, 8, 0, 1]
          \<lparr>fjpeg_info_t.width = 7, height = 9\<rparr>) \<noteq> 0 \<and>
   snd (fjpeg_info [255, 216, 255, 192, 0, 11, 8, 0, 1]
          \<lparr>fjpeg_info_t.width = 7, height = 9\<rparr>) = \<lparr>fjpeg_info_t.width = 7, height = 9\<rparr>"
  using fjpeg_info_frame [of "[255, 216, 255, 192, 0, 11, 8, 0, 1]"
      "\<lparr>fjpeg_info_t.width = 7, height = 9\<rparr>"]
  by (simp add: fjpeg_info_def info_loop.simps)

subsection \<open>No SOI, no decode\<close>

text \<open>
  C9.  When the buffer does not start with the two bytes FF D8 (it may also be shorter
  than two bytes), \<open>fjpeg_info\<close> returns -1 and \<open>fjpeg_decode\<close> returns -1 without a
  single call of the sink, whatever the allocator would do.
\<close>

theorem no_soi_fails:
  assumes "\<not> (2 \<le> length buf \<and> buf ! 0 = 255 \<and> buf ! 1 = 216)"
  shows "fst (fjpeg_info buf info) = - 1 \<and> fjpeg_decode malloc_ok buf = Some (- 1, [])"
proof -
  have "fst (fjpeg_info buf info) = - 1"
    using assms by (auto simp: fjpeg_info_def)
  moreover have "\<exists>c. parse_markers (ctx_init buf) = Some (- 1, c)"
  proof (cases "0 < length buf \<and> buf ! 0 = 255")
    case True
    with assms have "\<not> (1 < length buf \<and> buf ! 1 = 216)" by auto
    with True show ?thesis
      by (auto simp: parse_markers_def read_u8_def len_def ctx_init_def)
  next
    case False
    then show ?thesis
      by (auto simp: parse_markers_def read_u8_def len_def ctx_init_def)
  qed
  then have "fjpeg_decode malloc_ok buf = Some (- 1, [])"
    by (auto simp: fjpeg_decode_def)
  ultimately show ?thesis by simp
qed

theorem no_soi_fails_witness:
  "\<not> (2 \<le> length [255, 217, 0 :: nat] \<and> [255, 217, 0 :: nat] ! 0 = 255 \<and>
      [255, 217, 0 :: nat] ! 1 = 216) \<and>
   fst (fjpeg_info [255, 217, 0] \<lparr>fjpeg_info_t.width = 0, height = 0\<rparr>) = - 1 \<and>
   fjpeg_decode (\<lambda>n. True) [255, 217, 0] = Some (- 1, [])"
  using no_soi_fails [of "[255, 217, 0]" "\<lparr>fjpeg_info_t.width = 0, height = 0\<rparr>" "\<lambda>n. True"]
  by simp

subsection \<open>Quantization tables are pre-scaled at parse time\<close>

lemma read_u8_at:
  assumes "data c' = data c" and "pos c' = seek c k"
  shows "read_u8 c' = (byte_at c (pos c + k), c'\<lparr>pos := seek c (k + 1)\<rparr>)"
  using assms by (auto simp: read_u8_def byte_at_def seek_def len_def min_def)

lemma list_update_map_upt:
  "n < length xs \<Longrightarrow> (map f [0..<n] @ drop n xs)[n := f n] = map f [0..<Suc n] @ drop (Suc n) xs"
  by (simp add: list_update_append Cons_nth_drop_Suc [symmetric])

lemma dqt_load_fold8:
  assumes "n \<le> length (qtab c ! tid)"
  shows "fold (dqt_load_step 0 tid) [0..<n] c =
         c\<lparr>pos := seek c n,
           qtab := (qtab c)[tid := map (dqt_val c 0) [0..<n] @ drop n (qtab c ! tid)]\<rparr>"
  using assms
proof (induction n)
  case 0
  show ?case by (simp add: seek_def min_def)
next
  case (Suc n)
  let ?cn = "c\<lparr>pos := seek c n,
           qtab := (qtab c)[tid := map (dqt_val c 0) [0..<n] @ drop n (qtab c ! tid)]\<rparr>"
  from Suc have ih: "fold (dqt_load_step 0 tid) [0..<n] c = ?cn" and n: "n < length (qtab c ! tid)"
    by simp_all
  note r1 = read_u8_at [where c = c and k = n]
  have v: "dqt_val c 0 n = int (byte_at c (pos c + n))" by (simp add: dqt_val_def dqt_raw_def)
  have step: "dqt_load_step 0 tid n ?cn =
      c\<lparr>pos := seek c (Suc n),
        qtab := (qtab c)[tid := map (dqt_val c 0) [0..<Suc n] @ drop (Suc n) (qtab c ! tid)]\<rparr>"
  proof (cases "tid < length (qtab c)")
    case True
    with list_update_map_upt [OF n, of "dqt_val c 0"] show ?thesis
      by (simp add: dqt_load_step_def r1 v)
  next
    case False
    then show ?thesis by (simp add: dqt_load_step_def r1 list_update_beyond)
  qed
  show ?case by (simp add: ih step)
qed

lemma dqt_load_fold16:
  assumes "n \<le> length (qtab c ! tid)" and "prec \<noteq> 0"
  shows "fold (dqt_load_step prec tid) [0..<n] c =
         c\<lparr>pos := seek c (2 * n),
           qtab := (qtab c)[tid := map (dqt_val c prec) [0..<n] @ drop n (qtab c ! tid)]\<rparr>"
  using assms(1)
proof (induction n)
  case 0
  show ?case by (simp add: seek_def min_def)
next
  case (Suc n)
  let ?cn = "c\<lparr>pos := seek c (2 * n),
           qtab := (qtab c)[tid := map (dqt_val c prec) [0..<n] @ drop n (qtab c ! tid)]\<rparr>"
  from Suc have ih: "fold (dqt_load_step prec tid) [0..<n] c = ?cn" and n: "n < length (qtab c ! tid)"
    by simp_all
  note r1 = read_u8_at [where c = c and k = "2 * n"]
  note r2 = read_u8_at [where c = c and k = "2 * n + 1"]
  have v: "dqt_val c prec n =
      s16 (int (push_bit 8 (byte_at c (pos c + 2 * n)) OR byte_at c (pos c + (2 * n + 1))))"
    using assms(2) by (simp add: dqt_val_def dqt_raw_def)
  have step: "dqt_load_step prec tid n ?cn =
      c\<lparr>pos := seek c (2 * Suc n),
        qtab := (qtab c)[tid := map (dqt_val c prec) [0..<Suc n] @ drop (Suc n) (qtab c ! tid)]\<rparr>"
  proof (cases "tid < length (qtab c)")
    case True
    with list_update_map_upt [OF n, of "dqt_val c prec"] assms(2) show ?thesis
      by (simp add: dqt_load_step_def r1 r2 v)
  next
    case False
    with assms(2) show ?thesis by (simp add: dqt_load_step_def r1 r2 list_update_beyond)
  qed
  show ?case by (simp add: ih step)
qed

lemma dqt_scale_fold_eq:
  assumes "n \<le> length (qtab c ! tid)"
  shows "fold (dqt_scale_step tid) [0..<n] c =
         c\<lparr>qtab := (qtab c)[tid :=
             map (\<lambda>i. s16 ((qtab c ! tid ! i * int (wquant ! i) + 4) div 8)) [0..<n] @
             drop n (qtab c ! tid)]\<rparr>"
  using assms
proof (induction n)
  case 0
  show ?case by simp
next
  case (Suc n)
  let ?f = "\<lambda>i. s16 ((qtab c ! tid ! i * int (wquant ! i) + 4) div 8)"
  let ?cn = "c\<lparr>qtab := (qtab c)[tid := map ?f [0..<n] @ drop n (qtab c ! tid)]\<rparr>"
  from Suc have ih: "fold (dqt_scale_step tid) [0..<n] c = ?cn" and n: "n < length (qtab c ! tid)"
    by simp_all
  have step: "dqt_scale_step tid n ?cn =
      c\<lparr>qtab := (qtab c)[tid := map ?f [0..<Suc n] @ drop (Suc n) (qtab c ! tid)]\<rparr>"
  proof (cases "tid < length (qtab c)")
    case True
    with list_update_map_upt [OF n, of ?f] n show ?thesis
      by (simp add: dqt_scale_step_def nth_append)
  next
    case False
    then show ?thesis by (simp add: dqt_scale_step_def list_update_beyond)
  qed
  show ?case by (simp add: ih step)
qed

lemma dqt_table_eq:
  assumes "tid < length (qtab c)" and "length (qtab c ! tid) = 64"
  shows "dqt_table prec tid c =
         c\<lparr>pos := seek c (dqt_width prec * 64),
           qtab := (qtab c)[tid := map (dqt_scaled c prec) [0..<64]]\<rparr>"
proof -
  let ?c1 = "c\<lparr>pos := seek c (dqt_width prec * 64),
               qtab := (qtab c)[tid := map (dqt_val c prec) [0..<64]]\<rparr>"
  have l: "fold (dqt_load_step prec tid) [0..<64] c = ?c1"
  proof (cases "prec = 0")
    case True
    with dqt_load_fold8 [of 64 c tid] assms show ?thesis by (simp add: dqt_width_def)
  next
    case False
    with dqt_load_fold16 [of 64 c tid prec] assms show ?thesis by (simp add: dqt_width_def)
  qed
  have q: "qtab ?c1 ! tid = map (dqt_val c prec) [0..<64]" using assms by simp
  have m: "map (\<lambda>i. s16 ((map (dqt_val c prec) [0..<64] ! i * int (wquant ! i) + 4) div 8)) [0..<64] =
        map (dqt_scaled c prec) [0..<64]"
    by (rule map_cong) (simp_all add: dqt_scaled_def)
  have "dqt_table prec tid c = fold (dqt_scale_step tid) [0..<64] ?c1"
    by (simp only: dqt_table_def l)
  also have "\<dots> = ?c1\<lparr>qtab := (qtab ?c1)[tid :=
             map (\<lambda>i. s16 ((qtab ?c1 ! tid ! i * int (wquant ! i) + 4) div 8)) [0..<64] @
             drop 64 (qtab ?c1 ! tid)]\<rparr>"
    by (rule dqt_scale_fold_eq) (use assms in simp)
  also have "\<dots> = c\<lparr>pos := seek c (dqt_width prec * 64),
           qtab := (qtab c)[tid := map (dqt_scaled c prec) [0..<64]]\<rparr>"
    unfolding q m by simp
  finally show ?thesis .
qed

lemma s16_id: "- 32768 \<le> x \<Longrightarrow> x < 32768 \<Longrightarrow> s16 x = x"
  by (simp add: s16_def)

lemma wquant_le: "i < 64 \<Longrightarrow> wquant ! i \<le> 246"
proof -
  have "\<forall>x \<in> set wquant. x \<le> 246" by (simp add: wquant_def)
  moreover have "length wquant = 64" by (simp add: wquant_def)
  ultimately show "i < 64 \<Longrightarrow> wquant ! i \<le> 246" by (metis nth_mem)
qed

lemma parse_dqt_single:
  assumes "read_u16 c = (l, c1)" and "read_u8 c1 = (info, c2)"
    and "int l - 2 = 65 + (if drop_bit 4 info \<noteq> 0 then 64 else 0)"
    and "info AND 15 \<le> 1"
  shows "parse_dqt c = (0, dqt_table (drop_bit 4 info) (info AND 15) c2)"
proof -
  let ?left = "u16i (int l - 2)"
  have l: "?left = 65 + (if drop_bit 4 info \<noteq> 0 then 64 else 0)"
    using assms(3) by (simp add: u16i_def)
  then have "0 < ?left" by simp
  moreover have "u16i (int ?left - (65 + (if drop_bit 4 info \<noteq> 0 then 64 else 0))) = 0"
    using l by (simp add: u16i_def)
  ultimately show ?thesis
    using assms(1,2,4)
    by (simp add: parse_dqt_def dqt_loop.simps [of ?left c1] dqt_loop.simps [of 0])
qed

lemma read_u8_closed: "read_u8 c = (byte_at c (pos c), c\<lparr>pos := seek c 1\<rparr>)"
  by (auto simp: read_u8_def byte_at_def seek_def min_def)

lemma dqt_loop_closed:
  assumes "qtab_ok c"
  shows "dqt_loop left c =
     (if left > 0 then
        (if byte_at c (pos c) AND 15 > 1 then (- 1, c\<lparr>pos := seek c 1\<rparr>)
         else dqt_loop
                (u16i (int left - (65 + (if drop_bit 4 (byte_at c (pos c)) \<noteq> 0 then 64 else 0))))
                (dqt_next c))
      else (0, c))"
proof (cases "left > 0 \<and> \<not> byte_at c (pos c) AND 15 > 1")
  case True
  let ?info = "byte_at c (pos c)" and ?c2 = "c\<lparr>pos := seek c 1\<rparr>"
  from True have "?info AND 15 = 0 \<or> ?info AND 15 = 1" by auto
  with assms have t: "?info AND 15 < length (qtab ?c2)" "length (qtab ?c2 ! (?info AND 15)) = 64"
    by (auto simp: qtab_ok_def)
  have "dqt_table (drop_bit 4 ?info) (?info AND 15) ?c2 =
        ?c2\<lparr>pos := seek ?c2 (dqt_width (drop_bit 4 ?info) * 64),
            qtab := (qtab ?c2)[?info AND 15 := map (dqt_scaled ?c2 (drop_bit 4 ?info)) [0..<64]]\<rparr>"
    by (rule dqt_table_eq [OF t])
  also have "\<dots> = dqt_next c" by (simp add: dqt_next_def)
  finally have "dqt_table (drop_bit 4 ?info) (?info AND 15) ?c2 = dqt_next c" .
  with True show ?thesis
    unfolding dqt_loop.simps [of left c] read_u8_closed by simp
next
  case False
  then show ?thesis
    by (auto simp: dqt_loop.simps [of left c] read_u8_closed)
qed

lemma dqt_next_ok: "qtab_ok c \<Longrightarrow> qtab_ok (dqt_next c)"
  by (cases "byte_at c (pos c) AND 15 < length (qtab c)")
    (auto simp: qtab_ok_def dqt_next_def nth_list_update list_update_beyond)

lemma dqt_loop_tables:
  assumes "qtab_ok c" and "dqt_loop left c = (r, c')" and "t < 2"
  shows "qtab c' ! t = qtab c ! t \<or>
         (\<exists>c2 prec. data c2 = data c \<and> qtab c' ! t = map (dqt_scaled c2 prec) [0..<64])"
  using assms
proof (induction left c rule: dqt_loop.induct)
  case (1 left c)
  let ?info = "byte_at c (pos c)"
  show ?case
  proof (cases "left > 0 \<and> \<not> ?info AND 15 > 1")
    case True
    let ?left' = "u16i (int left - (65 + (if drop_bit 4 ?info \<noteq> 0 then 64 else 0)))"
    from True "1.prems" have e: "dqt_loop ?left' (dqt_next c) = (r, c')"
      by (simp add: dqt_loop_closed [OF "1.prems"(1), of left])
    have l: "dqt_loop left c = dqt_loop ?left' (dqt_table (drop_bit 4 ?info) (?info AND 15)
               (c\<lparr>pos := seek c 1\<rparr>))"
      using True unfolding dqt_loop.simps [of left c] read_u8_closed by simp
    have t: "dqt_table (drop_bit 4 ?info) (?info AND 15) (c\<lparr>pos := seek c 1\<rparr>) = dqt_next c"
    proof -
      from True have "?info AND 15 = 0 \<or> ?info AND 15 = 1" by auto
      with "1.prems"(1) have
        "?info AND 15 < length (qtab (c\<lparr>pos := seek c 1\<rparr>))"
        "length (qtab (c\<lparr>pos := seek c 1\<rparr>) ! (?info AND 15)) = 64"
        by (auto simp: qtab_ok_def)
      from dqt_table_eq [OF this] show ?thesis by (simp add: dqt_next_def)
    qed
    have ih: "qtab c' ! t = qtab (dqt_next c) ! t \<or>
         (\<exists>c2 prec. data c2 = data (dqt_next c) \<and> qtab c' ! t = map (dqt_scaled c2 prec) [0..<64])"
    proof (rule "1.IH" [OF _ read_u8_closed [symmetric], unfolded t])
      show "0 < left" using True by simp
      show "\<not> 1 < ?info AND 15" using True by simp
      show "qtab_ok (dqt_next c)" by (rule dqt_next_ok [OF "1.prems"(1)])
      show "dqt_loop ?left' (dqt_next c) = (r, c')" by (rule e)
      show "t < 2" by (rule "1.prems"(3))
    qed
    have d: "data (dqt_next c) = data c" by (simp add: dqt_next_def)
    have n: "qtab (dqt_next c) ! t = qtab c ! t \<or>
             qtab (dqt_next c) ! t =
               map (dqt_scaled (c\<lparr>pos := seek c 1\<rparr>) (drop_bit 4 ?info)) [0..<64]"
      using "1.prems"(1,3)
      by (cases "?info AND 15 < length (qtab c)")
        (auto simp: dqt_next_def qtab_ok_def nth_list_update list_update_beyond)
    have d2: "data (c\<lparr>pos := seek c 1\<rparr>) = data c" by simp
    from ih n d d2 show ?thesis by metis
  next
    case False
    with "1.prems" have "c' = c \<or> c' = c\<lparr>pos := seek c 1\<rparr>"
      by (auto simp: dqt_loop_closed [OF "1.prems"(1), of left] split: if_splits)
    then show ?thesis by auto
  qed
qed

lemma dqt_scaled_exact:
  assumes "i < 64" and r: "dqt_raw c2 prec i < 32768"
    and b: "(dqt_raw c2 prec i * wquant ! i + 4) div 8 < 32768"
  shows "dqt_scaled c2 prec i = (int (dqt_raw c2 prec i) * int (wquant ! i) + 4) div 8"
proof -
  let ?raw = "dqt_raw c2 prec i"
  have v: "dqt_val c2 prec i = int ?raw"
    using r by (simp add: dqt_val_def s16_id)
  have "(int ?raw * int (wquant ! i) + 4) div 8 = int ((?raw * wquant ! i + 4) div 8)"
    by (simp add: zdiv_int)
  with b have "s16 ((int ?raw * int (wquant ! i) + 4) div 8) = (int ?raw * int (wquant ! i) + 4) div 8"
    by (intro s16_id) linarith+
  with v show ?thesis by (simp add: dqt_scaled_def)
qed

lemma dqt_scaled_exact8:
  assumes i: "i < 64" and b: "byte_at c2 (pos c2 + i) < 256"
  shows "dqt_scaled c2 0 i = (int (byte_at c2 (pos c2 + i)) * int (wquant ! i) + 4) div 8"
proof -
  have r: "dqt_raw c2 0 i = byte_at c2 (pos c2 + i)" by (simp add: dqt_raw_def)
  have "dqt_raw c2 0 i * wquant ! i \<le> 255 * 246"
    using b wquant_le [OF i] unfolding r by (intro mult_mono) simp_all
  then have "(dqt_raw c2 0 i * wquant ! i + 4) div 8 < 32768" by simp
  with dqt_scaled_exact [OF i, of c2 0] b r show ?thesis by simp
qed

text \<open>
  C3, as the code has it.  \<open>parse_dqt\<close> runs its table loop \<open>dqt_loop\<close> on the state
  after the length field.  In every turn of that loop, so for every table of the segment
  and whatever the segment length says, the loop either stops (nothing left, or a table
  id above 1) or goes on from \<open>dqt_next c\<close>: the table selected by the header byte at the
  cursor holds, for each \<open>i\<close>, \<open>dqt_scaled\<close>, the \<open>int16_t\<close> cut of
  \<open>(val * wquant[i] + 4) >> 3\<close> with \<open>val\<close> the \<open>int16_t\<close> cut of the raw entry, and the
  tables keep their shape, so the same holds in the next turn.  When the loop returns,
  each of the two tables is as it was before or holds the scaled entries of a table of
  the segment: a table is scaled once.  The stored value is exactly
  \<open>(raw * wquant[i] + 4) >> 3\<close> whenever the raw value and that result are below 32768,
  and so for every 8-bit entry.
\<close>

theorem parse_dqt_prescale:
  assumes "qtab_ok c"
  shows "parse_dqt c = dqt_loop (u16i (int (fst (read_u16 c)) - 2)) (snd (read_u16 c)) \<and>
         qtab_ok (snd (read_u16 c)) \<and>
         dqt_loop left c =
           (if left > 0 then
              (if byte_at c (pos c) AND 15 > 1 then (- 1, c\<lparr>pos := seek c 1\<rparr>)
               else dqt_loop
                      (u16i (int left -
                             (65 + (if drop_bit 4 (byte_at c (pos c)) \<noteq> 0 then 64 else 0))))
                      (dqt_next c))
            else (0, c)) \<and>
         qtab_ok (dqt_next c) \<and>
         (dqt_loop left c = (r, c') \<and> t < 2 \<longrightarrow>
            qtab c' ! t = qtab c ! t \<or>
            (\<exists>c2 prec. data c2 = data c \<and> qtab c' ! t = map (dqt_scaled c2 prec) [0..<64])) \<and>
         dqt_scaled c2 prec i = s16 ((dqt_val c2 prec i * int (wquant ! i) + 4) div 8) \<and>
         (i < 64 \<and> dqt_raw c2 prec i < 32768 \<and>
          (dqt_raw c2 prec i * wquant ! i + 4) div 8 < 32768 \<longrightarrow>
            dqt_scaled c2 prec i = (int (dqt_raw c2 prec i) * int (wquant ! i) + 4) div 8) \<and>
         (i < 64 \<and> byte_at c2 (pos c2 + i) < 256 \<longrightarrow>
            dqt_scaled c2 0 i = (int (byte_at c2 (pos c2 + i)) * int (wquant ! i) + 4) div 8)"
proof (intro conjI)
  show "parse_dqt c = dqt_loop (u16i (int (fst (read_u16 c)) - 2)) (snd (read_u16 c))"
    by (simp add: parse_dqt_def split: prod.splits)
  show "qtab_ok (snd (read_u16 c))"
    using assms
    by (auto simp: read_u16_def read_u8_def qtab_ok_def split: prod.splits)
  show "dqt_loop left c =
           (if left > 0 then
              (if byte_at c (pos c) AND 15 > 1 then (- 1, c\<lparr>pos := seek c 1\<rparr>)
               else dqt_loop
                      (u16i (int left -
                             (65 + (if drop_bit 4 (byte_at c (pos c)) \<noteq> 0 then 64 else 0))))
                      (dqt_next c))
            else (0, c))"
    by (rule dqt_loop_closed [OF assms])
  show "qtab_ok (dqt_next c)" by (rule dqt_next_ok [OF assms])
  show "dqt_loop left c = (r, c') \<and> t < 2 \<longrightarrow>
         qtab c' ! t = qtab c ! t \<or>
         (\<exists>c2 prec. data c2 = data c \<and> qtab c' ! t = map (dqt_scaled c2 prec) [0..<64])"
    using dqt_loop_tables [OF assms] by blast
  show "dqt_scaled c2 prec i = s16 ((dqt_val c2 prec i * int (wquant ! i) + 4) div 8)"
    by (simp add: dqt_scaled_def)
  show "i < 64 \<and> dqt_raw c2 prec i < 32768 \<and>
          (dqt_raw c2 prec i * wquant ! i + 4) div 8 < 32768 \<longrightarrow>
         dqt_scaled c2 prec i = (int (dqt_raw c2 prec i) * int (wquant ! i) + 4) div 8"
    using dqt_scaled_exact by blast
  show "i < 64 \<and> byte_at c2 (pos c2 + i) < 256 \<longrightarrow>
         dqt_scaled c2 0 i = (int (byte_at c2 (pos c2 + i)) * int (wquant ! i) + 4) div 8"
    using dqt_scaled_exact8 by blast
qed

lemma dqt2_pos: 
  "pos (dqt_next ((ctx_init dqt2_segment)\<lparr>pos := 2\<rparr>)) = 67"
  "byte_at ((ctx_init dqt2_segment)\<lparr>pos := 2\<rparr>) 2 = 0"
  "byte_at (dqt_next ((ctx_init dqt2_segment)\<lparr>pos := 2\<rparr>)) 67 = 1"
  "pos (dqt_next (dqt_next ((ctx_init dqt2_segment)\<lparr>pos := 2\<rparr>))) = 132"
  by (simp_all add: dqt_next_def seek_def byte_at_def len_def dqt_width_def ctx_init_def
      dqt2_segment_def nth_append)

theorem parse_dqt_prescale_witness:
  "qtab_ok (ctx_init dqt2_segment) \<and>
   fst (parse_dqt (ctx_init dqt2_segment)) = 0 \<and>
   pos (snd (parse_dqt (ctx_init dqt2_segment))) = 132 \<and>
   qtab (snd (parse_dqt (ctx_init dqt2_segment))) ! 0 ! 3 = (2 * 167 + 4) div 8 \<and>
   qtab (snd (parse_dqt (ctx_init dqt2_segment))) ! 1 ! 3 = (3 * 167 + 4) div 8"
proof -
  let ?c = "ctx_init dqt2_segment"
  let ?c1 = "?c\<lparr>pos := 2\<rparr>"
  let ?c2 = "dqt_next ?c1"
  let ?c3 = "dqt_next ?c2"
  have ok: "qtab_ok ?c" by (simp add: qtab_ok_def ctx_init_def)
  have rd: "read_u16 ?c = (132, ?c1)"
    by (simp add: read_u16_def read_u8_def len_def u16_def ctx_init_def dqt2_segment_def)
  from parse_dqt_prescale [OF ok] rd have p: "parse_dqt ?c = dqt_loop 130 ?c1" and ok1: "qtab_ok ?c1"
    by (simp_all add: u16i_def)
  from parse_dqt_prescale [OF ok1, of 130] dqt2_pos
  have l1: "dqt_loop 130 ?c1 = dqt_loop 65 ?c2" and ok2: "qtab_ok ?c2"
    by (simp_all add: u16i_def)
  from parse_dqt_prescale [OF ok2, of 65] dqt2_pos
  have l2: "dqt_loop 65 ?c2 = dqt_loop 0 ?c3" and ok3: "qtab_ok ?c3"
    by (simp_all add: u16i_def)
  from parse_dqt_prescale [OF ok3, of 0]
  have l3: "dqt_loop 0 ?c3 = (0, ?c3)" by simp
  have r: "parse_dqt ?c = (0, ?c3)" by (simp only: p l1 l2 l3)
  have q0: "qtab ?c3 ! 0 ! 3 = 42"
    by (simp add: dqt_next_def seek_def byte_at_def len_def dqt_width_def ctx_init_def
      dqt2_segment_def nth_append dqt_scaled_def dqt_val_def dqt_raw_def wquant_def s16_def)
  have q1: "qtab ?c3 ! 1 ! 3 = 63"
    by (simp add: dqt_next_def seek_def byte_at_def len_def dqt_width_def ctx_init_def
      dqt2_segment_def nth_append dqt_scaled_def dqt_val_def dqt_raw_def wquant_def s16_def)
  from ok r q0 q1 dqt2_pos show ?thesis by simp
qed


lemma dqt16_reads:
  "read_u16 (ctx_init dqt16_segment) = (131, (ctx_init dqt16_segment)\<lparr>pos := 2\<rparr>)"
  "read_u8 ((ctx_init dqt16_segment)\<lparr>pos := 2\<rparr>) = (16, (ctx_init dqt16_segment)\<lparr>pos := 3\<rparr>)"
  by (simp_all add: read_u16_def read_u8_def len_def u16_def ctx_init_def dqt16_segment_def)

text \<open>
  The claim as stated fails for a 16-bit entry: the raw value 0x1000 read from the
  segment gives \<open>(0x1000 * 128 + 4) >> 3 = 65536\<close>, and the table entry is 0.
\<close>

theorem parse_dqt_prescale_counterexample:
  "fst (parse_dqt (ctx_init dqt16_segment)) = 0 \<and>
   dqt_raw ((ctx_init dqt16_segment)\<lparr>pos := 3\<rparr>) 1 0 = 4096 \<and>
   (4096 * int (wquant ! 0) + 4) div 8 = 65536 \<and>
   qtab (snd (parse_dqt (ctx_init dqt16_segment))) ! 0 ! 0 = 0"
proof -
  have r: "dqt_raw ((ctx_init dqt16_segment)\<lparr>pos := 3\<rparr>) 1 0 = 4096"
    by (simp add: dqt_raw_def byte_at_def len_def ctx_init_def dqt16_segment_def)
  have w: "wquant ! 0 = 128" by (simp add: wquant_def)
  have p: "parse_dqt (ctx_init dqt16_segment) =
           (0, dqt_table 1 0 ((ctx_init dqt16_segment)\<lparr>pos := 3\<rparr>))"
    using parse_dqt_single [OF dqt16_reads] by simp
  have "qtab (dqt_table 1 0 ((ctx_init dqt16_segment)\<lparr>pos := 3\<rparr>)) ! 0 ! 0 =
        dqt_scaled ((ctx_init dqt16_segment)\<lparr>pos := 3\<rparr>) 1 0"
    by (subst dqt_table_eq) (simp_all add: ctx_init_def)
  also have "\<dots> = 0"
    using r w by (simp add: dqt_scaled_def dqt_val_def s16_def)
  finally show ?thesis using r w by (simp add: p)
qed

subsection \<open>Parsing the test image\<close>







subsection \<open>DC predictors and the bit accumulator at scan start and at a restart\<close>




end
